theory Spec2Isabelle
  imports Complex_Main
begin

section \<open>Characters and strings\<close>

text \<open>
  A JavaScript string is a sequence of UTF-16 code units. The model uses \<^typ>\<open>string\<close>
  and reads a \<^typ>\<open>char\<close> as the code unit of the same number, so it covers the texts
  and terms whose code units lie in U+0000 .. U+00FF. The character classes and case
  mappings below are those of ECMAScript on that range. On this range two characters
  with the same canonical form have the same lower case; beyond it they need not
  (U+00B5 and U+03BC), so what is proved from that agreement is stated for this range.
\<close>

definition code :: "char \<Rightarrow> nat" where
  "code c = of_char c"

definition backslash :: char where
  "backslash = CHR 0x5C"

text \<open>The class \<open>\w\<close>, which decides \<open>\b\<close>: the ASCII letters, the digits and the underscore.\<close>

definition isWordChar :: "char \<Rightarrow> bool" where
  "isWordChar c =
     (let n = code c
      in (48 \<le> n \<and> n \<le> 57) \<or> (65 \<le> n \<and> n \<le> 90) \<or> n = 95 \<or> (97 \<le> n \<and> n \<le> 122))"

text \<open>The class \<open>\s\<close> (white space and line terminators), also what \<open>trim\<close> strips:
  TAB, LF, VT, FF, CR, SPACE and NO-BREAK SPACE.\<close>

definition isWhiteSpace :: "char \<Rightarrow> bool" where
  "isWhiteSpace c = (code c \<in> set [9, 10, 11, 12, 13, 32, 160])"

text \<open>
  The letters of the range that have a case mapping: \<open>a\<close>..\<open>z\<close> and U+00E0 .. U+00FE
  without the division sign are the lower case of the code unit 32 below; \<open>A\<close>..\<open>Z\<close>
  and U+00C0 .. U+00DE without the multiplication sign are the upper case of the code unit
  32 above.
\<close>

definition isLower :: "nat \<Rightarrow> bool" where
  "isLower n = ((97 \<le> n \<and> n \<le> 122) \<or> (224 \<le> n \<and> n \<le> 254 \<and> n \<noteq> 247))"

definition isUpper :: "nat \<Rightarrow> bool" where
  "isUpper n = ((65 \<le> n \<and> n \<le> 90) \<or> (192 \<le> n \<and> n \<le> 222 \<and> n \<noteq> 215))"

text \<open>
  \<open>Canonicalize\<close> of a case-insensitive, non-Unicode pattern: the code unit of the upper
  case of the character, unless that upper case is longer than one code unit (U+00DF).
  The upper case of U+00B5 is U+039C and that of U+00FF is U+0178, hence the result is a
  number.
\<close>

definition Canonicalize :: "char \<Rightarrow> nat" where
  "Canonicalize c =
     (let n = code c
      in if isLower n then n - 32
         else if n = 181 then 924
         else if n = 255 then 376
         else n)"

text \<open>\<open>toLowerCase\<close>, character by character: no character of the range changes the length.\<close>

definition toLowerCase_char :: "char \<Rightarrow> char" where
  "toLowerCase_char c = (let n = code c in if isUpper n then char_of (n + 32) else c)"

definition toLowerCase :: "string \<Rightarrow> string" where
  "toLowerCase s = map toLowerCase_char s"

text \<open>\<open>s.substring(p, q)\<close> for \<open>p \<le> q \<le> s.length\<close>.\<close>

definition substring :: "string \<Rightarrow> nat \<Rightarrow> nat \<Rightarrow> string" where
  "substring s p q = take (q - p) (drop p s)"

text \<open>\<open>xs.join(sep)\<close>.\<close>

fun join :: "string \<Rightarrow> string list \<Rightarrow> string" where
  "join sep [] = []"
| "join sep [x] = x"
| "join sep (x # y # ys) = x @ sep @ join sep (y # ys)"

section \<open>The pattern built by highlightText\<close>

text \<open>
  \<open>t.replace(/[.*+?^${}()|[\]\\]/g, "\\$&")\<close>: every character of the class is replaced by
  a backslash followed by itself.
\<close>

definition escapeClass :: string where
  "escapeClass = ''.*+?^${}()|[]'' @ [backslash]"

definition escapeRegExp :: "string \<Rightarrow> string" where
  "escapeRegExp t = concat (map (\<lambda>c. if c \<in> set escapeClass then [backslash, c] else [c]) t)"

text \<open>The template string \<open>`\\b(${ ... .join("|")})\\b`\<close>.\<close>

definition patternSource :: "string list \<Rightarrow> string" where
  "patternSource terms =
     [backslash, CHR ''b'', CHR ''(''] @ join ''|'' (map escapeRegExp terms)
       @ [CHR '')'', backslash, CHR ''b'']"

section \<open>The RegExp constructor\<close>

text \<open>
  The pattern grammar of ECMAScript, as far as highlightText can reach it. The lexical
  layer is the language's: \<open>SyntaxCharacter\<close> is \<open>^ $ \ . * + ? ( ) [ ] { } |\<close>; an
  unescaped syntax character is an operator, any other unescaped character is a pattern
  character that matches itself; a backslash before a syntax character (or \<open>/\<close>) is an
  identity escape, which matches that character; \<open>\b\<close> is the word-boundary assertion;
  a backslash at the end of the pattern is a SyntaxError.
\<close>

datatype js_error = SyntaxError

datatype token =
    Lit char   \<comment> \<open>matches this character\<close>
  | Op char    \<comment> \<open>an unescaped syntax character: pattern syntax\<close>
  | WordB      \<comment> \<open>\<open>\b\<close>\<close>
  | Esc char   \<comment> \<open>any other escape (\<open>\d\<close>, \<open>\w\<close>, \<open>\n\<close>, ...)\<close>

definition syntaxCharacters :: string where
  "syntaxCharacters = ''^$'' @ [backslash] @ ''.*+?()[]{}|''"

definition escapeToken :: "char \<Rightarrow> token" where
  "escapeToken d =
     (if d \<in> set syntaxCharacters \<or> d = CHR ''/'' then Lit d
      else if d = CHR ''b'' then WordB
      else Esc d)"

fun scan :: "string \<Rightarrow> token list option" where
  "scan [] = Some []"
| "scan (c # cs) =
     (if c = backslash then
        (case cs of
           [] \<Rightarrow> None
         | d # ds \<Rightarrow> map_option ((#) (escapeToken d)) (scan ds))
      else map_option ((#) (if c \<in> set syntaxCharacters then Op c else Lit c)) (scan cs))"

text \<open>
  The body of a group: alternatives of literal characters separated by \<open>|\<close>, up to the
  closing parenthesis. The result is the list of alternatives and the tokens after the
  group. Any other token inside the group is pattern syntax that this model does not
  interpret; the pattern is then rejected.
\<close>

fun alternatives :: "token list \<Rightarrow> (string list \<times> token list) option" where
  "alternatives [] = None"
| "alternatives (Lit c # ts) =
     (case alternatives ts of
        Some (a # as, rest) \<Rightarrow> Some ((c # a) # as, rest)
      | _ \<Rightarrow> None)"
| "alternatives (Op c # ts) =
     (if c = CHR ''|'' then
        (case alternatives ts of
           Some (as, rest) \<Rightarrow> Some ([] # as, rest)
         | None \<Rightarrow> None)
      else if c = CHR '')'' then Some ([[]], ts)
      else None)"
| "alternatives (WordB # ts) = None"
| "alternatives (Esc c # ts) = None"

text \<open>
  A compiled pattern \<open>\b(a1|...|an)\b\<close> with the flags \<open>gi\<close> is the list of its
  alternatives, each a string of literal characters. \<open>RegExp\<close> returns the SyntaxError
  for a pattern that does not scan, and rejects in the same way every pattern that is not
  of this shape.
\<close>

type_synonym regexp = "string list"

definition RegExp :: "string \<Rightarrow> js_error + regexp" where
  "RegExp src =
     (case scan src of
        Some (WordB # Op c # ts) \<Rightarrow>
          (if c = CHR ''('' then
             (case alternatives ts of
                Some (as, [WordB]) \<Rightarrow> Inr as
              | _ \<Rightarrow> Inl SyntaxError)
           else Inl SyntaxError)
      | _ \<Rightarrow> Inl SyntaxError)"

section \<open>Matching\<close>

text \<open>
  \<open>\b\<close> holds at index \<open>i\<close> when exactly one of the characters before and after \<open>i\<close> is
  a word character; beyond either end of the string there is no word character.
\<close>

definition isWordBoundary :: "string \<Rightarrow> nat \<Rightarrow> bool" where
  "isWordBoundary s i =
     ((0 < i \<and> i \<le> length s \<and> isWordChar (s ! (i - 1))) \<noteq> (i < length s \<and> isWordChar (s ! i)))"

text \<open>An alternative matches at \<open>q\<close> when the text continues with its characters, compared
  after \<open>Canonicalize\<close> (flag \<open>i\<close>).\<close>

definition matchesAt :: "string \<Rightarrow> nat \<Rightarrow> string \<Rightarrow> bool" where
  "matchesAt s q a =
     (q + length a \<le> length s \<and>
      map Canonicalize (substring s q (q + length a)) = map Canonicalize a)"

text \<open>
  The pattern run at index \<open>q\<close> only (as \<open>split\<close> runs it): \<open>\b\<close> at \<open>q\<close>, then the
  alternatives in the order they are written, each followed by \<open>\b\<close>; backtracking takes
  the first alternative for which all of it succeeds. The result is the length of the match
  and the captures, here the text of group 1.
\<close>

definition regExpExec :: "regexp \<Rightarrow> string \<Rightarrow> nat \<Rightarrow> (nat \<times> string list) option" where
  "regExpExec alts s q =
     (if isWordBoundary s q then
        (case find (\<lambda>a. matchesAt s q a \<and> isWordBoundary s (q + length a)) alts of
           None \<Rightarrow> None
         | Some a \<Rightarrow> Some (length a, [substring s q (q + length a)]))
      else None)"

text \<open>The pattern \<open>/\s+/\<close> of the tokenizer run at index \<open>q\<close>: the longest run of white
  space starting there, if it is not empty; no captures.\<close>

definition whiteSpaceExec :: "string \<Rightarrow> nat \<Rightarrow> (nat \<times> string list) option" where
  "whiteSpaceExec s q =
     (let n = length (takeWhile isWhiteSpace (drop q s))
      in if n = 0 then None else Some (n, []))"

section \<open>String.prototype.split with a pattern\<close>

text \<open>
  The loop of \<open>RegExp.prototype[@@split]\<close>: \<open>p\<close> is the end of the last match, \<open>q\<close> the
  index tried next. \<open>exec q\<close> is the pattern run at \<open>q\<close>. A match that ends at \<open>p\<close> is
  skipped; otherwise the text between \<open>p\<close> and \<open>q\<close> and then the captures are appended and
  the scan goes on from the end of the match.
\<close>

function splitLoop :: "(nat \<Rightarrow> (nat \<times> string list) option) \<Rightarrow> string \<Rightarrow> nat \<Rightarrow> nat \<Rightarrow> string list" where
  "splitLoop exec s p q =
     (if q < length s then
        (case exec q of
           None \<Rightarrow> splitLoop exec s p (q + 1)
         | Some (n, captures) \<Rightarrow>
             (let e = min (q + n) (length s)
              in if e = p then splitLoop exec s p (q + 1)
                 else substring s p q # captures @ splitLoop exec s e e))
      else [substring s p (length s)])"
  by pat_completeness auto
termination
  by (relation "measure (\<lambda>(exec, s, p, q). 2 * (length s - q) + (if p = q then 0 else 1))")
     (auto split: if_splits)

definition splitRegExp :: "(nat \<Rightarrow> (nat \<times> string list) option) \<Rightarrow> string \<Rightarrow> string list" where
  "splitRegExp exec s =
     (if length s = 0 then (if exec 0 = None then [s] else [])
      else splitLoop exec s 0 0)"

section \<open>highlightText\<close>

datatype span = Matched string | Plain string

fun span_text :: "span \<Rightarrow> string" where
  "span_text (Matched s) = s"
| "span_text (Plain s) = s"

fun is_matched :: "span \<Rightarrow> bool" where
  "is_matched (Matched s) = True"
| "is_matched (Plain s) = False"

text \<open>The callback of \<open>parts.map\<close>: a \<open>mark\<close> element when some term equals the part after
  \<open>toLowerCase\<close> on both, a \<open>span\<close> element otherwise.\<close>

definition renderPart :: "string list \<Rightarrow> string \<Rightarrow> span" where
  "renderPart terms part =
     (if list_ex (\<lambda>t. toLowerCase t = toLowerCase part) terms then Matched part else Plain part)"

text \<open>With no terms the text itself is returned, which is rendered as one unmarked run.\<close>

definition highlightText :: "string \<Rightarrow> string list \<Rightarrow> js_error + span list" where
  "highlightText text terms =
     (if terms = [] then Inr [Plain text]
      else
        (case RegExp (patternSource terms) of
           Inl err \<Rightarrow> Inl err
         | Inr pattern \<Rightarrow> Inr (map (renderPart terms) (splitRegExp (regExpExec pattern text) text))))"

text \<open>
  An engine bounds the size of the patterns it compiles; the bound belongs to the engine,
  not to the language, and \<open>RegExp\<close> above has none. V8 refuses a run of literal characters
  of 32768 or more code units with the SyntaxError \<open>Regular expression too large\<close>, raised
  when the pattern is built or first run, which \<open>split\<close> does for every text.
  \<open>highlightText_on accepts\<close> is highlightText on an engine that compiles the patterns whose
  alternatives satisfy \<open>accepts\<close>; highlightText has no guard around the pattern.
\<close>

definition engineAccepts_V8 :: "regexp \<Rightarrow> bool" where
  "engineAccepts_V8 alts = list_all (\<lambda>a. length a < 32768) alts"

definition highlightText_on :: "(regexp \<Rightarrow> bool) \<Rightarrow> string \<Rightarrow> string list \<Rightarrow> js_error + span list" where
  "highlightText_on accepts text terms =
     (if terms = [] then Inr [Plain text]
      else
        (case RegExp (patternSource terms) of
           Inl err \<Rightarrow> Inl err
         | Inr pattern \<Rightarrow>
             (if accepts pattern then
                Inr (map (renderPart terms) (splitRegExp (regExpExec pattern text) text))
              else Inl SyntaxError)))"

text \<open>\<open>query.split(/\s+/).filter(Boolean)\<close>: the empty string is the only string that is
  falsy.\<close>

definition tokenize :: "string \<Rightarrow> string list" where
  "tokenize query = filter (\<lambda>part. part \<noteq> []) (splitRegExp (whiteSpaceExec query) query)"

text \<open>
  The tokenizer as the specification words it: the maximal runs of characters that are not
  white space, in order. \<open>spec_words cur cs\<close> reads \<open>cs\<close> with the current run in \<open>cur\<close>.
\<close>

fun spec_words :: "string \<Rightarrow> string \<Rightarrow> string list" where
  "spec_words cur [] = (if cur = [] then [] else [cur])"
| "spec_words cur (c # cs) =
     (if isWhiteSpace c then (if cur = [] then [] else [cur]) @ spec_words [] cs
      else spec_words (cur @ [c]) cs)"

definition spec_tokenize :: "string \<Rightarrow> string list" where
  "spec_tokenize raw = spec_words [] raw"

section \<open>The search session\<close>

text \<open>The numbers of a document are carried along; handleSearch reads none of them.\<close>

record DocResult =
  doc_id :: int
  filename :: string
  score :: real
  doc_text :: string

text \<open>The five \<open>useState\<close> cells of the component.\<close>

record state =
  query :: string
  results :: "DocResult list"
  loading :: bool
  selectedDoc :: "DocResult option"
  error :: "string option"

definition initial :: state where
  "initial = \<lparr>query = [], results = [], loading = False, selectedDoc = None, error = None\<rparr>"

text \<open>
  What the awaited \<open>fetch\<close> and \<open>res.json()\<close> give: they throw (\<open>Failure\<close>), or they give
  an object with the fields \<open>error\<close> and \<open>results\<close>, either of which may be missing.
\<close>

datatype response = Failure | Json "string option" "DocResult list option"

text \<open>The two copies of the component differ in the message of the \<open>catch\<close> block.\<close>

datatype copy = App_tsx | Part_000

fun catchMessage :: "copy \<Rightarrow> string" where
  "catchMessage App_tsx = ''Could not connect to backend.''"
| "catchMessage Part_000 = ''No document found.''"

text \<open>\<open>s.trim()\<close>.\<close>

definition trim :: "string \<Rightarrow> string" where
  "trim s = rev (dropWhile isWhiteSpace (rev (dropWhile isWhiteSpace s)))"

text \<open>
  handleSearch up to its \<open>await\<close>: the new state and, if \<open>fetch\<close> is called, the query
  sent in the request body.
\<close>

definition handleSearch_submit :: "state \<Rightarrow> state \<times> string option" where
  "handleSearch_submit st =
     (if trim (query st) = [] then
        (st\<lparr>error := Some ''Please enter a query.'', results := []\<rparr>, None)
      else
        (st\<lparr>loading := True, error := None, results := [], selectedDoc := None\<rparr>,
         Some (query st)))"

text \<open>
  handleSearch after its \<open>await\<close>, run on the state it finds when the response arrives.
  \<open>data.error\<close> is truthy when it is a non-empty string; reading \<open>length\<close> of a missing
  \<open>results\<close> throws inside the \<open>try\<close> block.
\<close>

definition handleSearch_resume :: "copy \<Rightarrow> state \<Rightarrow> response \<Rightarrow> state" where
  "handleSearch_resume cp st resp =
     (case resp of
        Failure \<Rightarrow> st\<lparr>error := Some (catchMessage cp)\<rparr>
      | Json err res \<Rightarrow>
          (if err \<noteq> None \<and> err \<noteq> Some [] then st\<lparr>error := err, results := []\<rparr>
           else
             (case res of
                None \<Rightarrow> st\<lparr>error := Some (catchMessage cp)\<rparr>
              | Some rs \<Rightarrow>
                  (if length rs = 0 then
                     st\<lparr>error := Some ''No matching documents found.'', results := []\<rparr>
                   else st\<lparr>results := rs\<rparr>)))
     )\<lparr>loading := False\<rparr>"

text \<open>
  The session with its network: beside the state of the component, the queries of the
  requests that are not answered yet, in the order of their submission. An event is the
  user typing a query, a call of handleSearch (the button, or the Enter key, which is not
  disabled while loading), or the arrival of the response to one of the pending requests.
\<close>

record session =
  ui :: state
  inflight :: "string list"

datatype event = SetQuery string | Submit | Deliver nat response

fun step :: "copy \<Rightarrow> session \<Rightarrow> event \<Rightarrow> session" where
  "step cp s (SetQuery q) = s\<lparr>ui := (ui s)\<lparr>query := q\<rparr>\<rparr>"
| "step cp s Submit =
     (case handleSearch_submit (ui s) of
        (st, None) \<Rightarrow> s\<lparr>ui := st\<rparr>
      | (st, Some q) \<Rightarrow> \<lparr>ui = st, inflight = inflight s @ [q]\<rparr>)"
| "step cp s (Deliver i resp) =
     (if i < length (inflight s) then
        \<lparr>ui = handleSearch_resume cp (ui s) resp,
         inflight = take i (inflight s) @ drop (Suc i) (inflight s)\<rparr>
      else s)"

fun run :: "copy \<Rightarrow> session \<Rightarrow> event list \<Rightarrow> session" where
  "run cp s [] = s"
| "run cp s (e # es) = run cp (step cp s e) es"

definition start :: session where
  "start = \<lparr>ui = initial, inflight = []\<rparr>"

text \<open>Two documents for the scenarios below.\<close>

definition docA :: DocResult where
  "docA = \<lparr>doc_id = 1, filename = ''a.txt'', score = 2, doc_text = ''alpha''\<rparr>"

definition docB :: DocResult where
  "docB = \<lparr>doc_id = 2, filename = ''b.txt'', score = 1, doc_text = ''beta''\<rparr>"

section \<open>Auxiliary notions for the proofs\<close>

text \<open>The code unit of the lower case, recovered from the canonical form.\<close>

definition uncanon :: "nat \<Rightarrow> nat" where
  "uncanon k = (if isUpper k then k + 32 else if k = 924 then 181 else if k = 376 then 255 else k)"

text \<open>The tokens of the group body that the terms give.\<close>

fun altTokens :: "string list \<Rightarrow> token list" where
  "altTokens [] = []"
| "altTokens [t] = map Lit t"
| "altTokens (t # u # us) = map Lit t @ Op (CHR ''|'') # altTokens (u # us)"

text \<open>
  The matches that the loop of \<open>split\<close> takes, for saying where they end up in the output:
  the loop itself, recording for each match it takes the index \<open>p\<close> at which the scan had
  resumed, the index \<open>q\<close> at which the pattern matched and the end \<open>e\<close> of the match.
\<close>

function takenMatches :: "(nat \<Rightarrow> (nat \<times> string list) option) \<Rightarrow> string \<Rightarrow> nat \<Rightarrow> nat \<Rightarrow> (nat \<times> nat \<times> nat) list" where
  "takenMatches exec s p q =
     (if q < length s then
        (case exec q of
           None \<Rightarrow> takenMatches exec s p (q + 1)
         | Some (n, captures) \<Rightarrow>
             (let e = min (q + n) (length s)
              in if e = p then takenMatches exec s p (q + 1)
                 else (p, q, e) # takenMatches exec s e e))
      else [])"
  by pat_completeness auto
termination
  by (relation "measure (\<lambda>(exec, s, p, q). 2 * (length s - q) + (if p = q then 0 else 1))")
     (auto split: if_splits)

text \<open>
  The pieces of \<open>s\<close> from \<open>p\<close> on that a list of matches cuts out, in order: the text up to
  each match (marked \<open>False\<close>), the match (marked \<open>True\<close>), and the text after the last match.
\<close>

fun partsOf :: "string \<Rightarrow> nat \<Rightarrow> (nat \<times> nat \<times> nat) list \<Rightarrow> (bool \<times> string) list" where
  "partsOf s p [] = [(False, substring s p (length s))]"
| "partsOf s p ((r, q, e) # ms) =
     (False, substring s p q) # (True, substring s q e) # partsOf s e ms"

text \<open>A match as a matched span, any other piece as the callback of \<open>parts.map\<close> renders it.\<close>

fun renderAt :: "string list \<Rightarrow> bool \<times> string \<Rightarrow> span" where
  "renderAt terms (True, part) = Matched part"
| "renderAt terms (False, part) = renderPart terms part"

text \<open>A pattern whose captures make up the text it matched.\<close>

definition captures_cover :: "(nat \<Rightarrow> (nat \<times> string list) option) \<Rightarrow> string \<Rightarrow> bool" where
  "captures_cover exec s =
     (\<forall>q n caps. exec q = Some (n, caps) \<longrightarrow>
        q + n \<le> length s \<and> concat caps = substring s q (q + n))"

section \<open>Case folding\<close>

lemma code_less: "code c < 256"
proof -
  have "code c mod 256 = code c" by (simp add: code_def)
  then show ?thesis by (metis mod_less_divisor zero_less_numeral)
qed

lemma code_inj: "code a = code b \<Longrightarrow> a = b"
  by (simp add: code_def)

lemma isUpper_not: "isUpper n \<Longrightarrow> \<not> isLower n \<and> n \<noteq> 181 \<and> n \<noteq> 255 \<and> n + 32 < 256"
  unfolding isUpper_def isLower_def by arith

lemma isLower_not: "isLower n \<Longrightarrow> \<not> isUpper n \<and> isUpper (n - 32) \<and> n - 32 + 32 = n"
  unfolding isUpper_def isLower_def by arith

text \<open>The canonical form of a character determines its lower case.\<close>

lemma code_toLowerCase_char: "code (toLowerCase_char c) = uncanon (Canonicalize c)"
proof -
  let ?n = "code c"
  have lt: "?n < 256" by (rule code_less)
  consider (U) "isUpper ?n" | (L) "isLower ?n" | (a) "?n = 181" | (b) "?n = 255"
    | (o) "\<not> isUpper ?n" "\<not> isLower ?n" "?n \<noteq> 181" "?n \<noteq> 255"
    by blast
  then show ?thesis
  proof cases
    case U
    from isUpper_not[OF U] have "code (char_of (?n + 32)) = ?n + 32"
      by (simp add: code_def)
    with U isUpper_not[OF U] show ?thesis
      by (simp add: Canonicalize_def toLowerCase_char_def uncanon_def)
  next
    case L
    with isLower_not[OF L] show ?thesis
      by (simp add: Canonicalize_def toLowerCase_char_def uncanon_def)
  next
    case a
    then show ?thesis
      by (simp add: Canonicalize_def toLowerCase_char_def uncanon_def isUpper_def isLower_def)
  next
    case b
    then show ?thesis
      by (simp add: Canonicalize_def toLowerCase_char_def uncanon_def isUpper_def isLower_def)
  next
    case o
    have "?n \<noteq> 924" "?n \<noteq> 376" using lt by arith+
    with o show ?thesis
      by (simp add: Canonicalize_def toLowerCase_char_def uncanon_def)
  qed
qed

lemma Canonicalize_toLowerCase_char:
  assumes "Canonicalize a = Canonicalize b"
  shows "toLowerCase_char a = toLowerCase_char b"
proof -
  have "code (toLowerCase_char a) = uncanon (Canonicalize a)"
    by (rule code_toLowerCase_char)
  also have "\<dots> = uncanon (Canonicalize b)" by (simp only: assms)
  also have "\<dots> = code (toLowerCase_char b)"
    by (rule code_toLowerCase_char[symmetric])
  finally show ?thesis by (rule code_inj)
qed

lemma Canonicalize_toLowerCase:
  assumes "map Canonicalize u = map Canonicalize v"
  shows "toLowerCase u = toLowerCase v"
proof -
  have "length u = length v" using assms by (rule map_eq_imp_length_eq)
  then show ?thesis using assms
  proof (induction u v rule: list_induct2)
    case Nil
    then show ?case by (simp add: toLowerCase_def)
  next
    case (Cons a u b v)
    then have "Canonicalize a = Canonicalize b" and "toLowerCase u = toLowerCase v" by simp_all
    then show ?case using Canonicalize_toLowerCase_char[of a b] by (simp add: toLowerCase_def)
  qed
qed

section \<open>The pattern of highlightText compiles to its terms\<close>

lemma escapeClass_syntax: "c \<in> set escapeClass \<longleftrightarrow> c \<in> set syntaxCharacters"
  by (auto simp: escapeClass_def syntaxCharacters_def)

lemma backslash_syntax: "backslash \<in> set syntaxCharacters"
  by (simp add: syntaxCharacters_def)

lemma scan_escapeRegExp:
  "scan (escapeRegExp t @ rest) = map_option ((@) (map Lit t)) (scan rest)"
proof (induction t)
  case Nil
  then show ?case by (simp add: escapeRegExp_def option.map_ident)
next
  case (Cons c t)
  have step: "escapeRegExp (c # t) = (if c \<in> set escapeClass then [backslash, c] else [c]) @ escapeRegExp t"
    by (simp add: escapeRegExp_def)
  show ?case
  proof (cases "c \<in> set syntaxCharacters")
    case True
    then show ?thesis using Cons
      by (simp add: step escapeClass_syntax escapeToken_def option.map_comp comp_def)
  next
    case False
    then have "c \<noteq> backslash" using backslash_syntax by auto
    then show ?thesis using Cons False
      by (simp add: step escapeClass_syntax option.map_comp comp_def)
  qed
qed

lemma scan_escapeRegExp_term: "scan (escapeRegExp t) = Some (map Lit t)"
  using scan_escapeRegExp[of t "[]"] by simp

lemma bar_syntax: "CHR ''|'' \<in> set syntaxCharacters" "CHR ''|'' \<noteq> backslash"
  "CHR '')'' \<in> set syntaxCharacters" "CHR '')'' \<noteq> backslash"
  "CHR ''('' \<in> set syntaxCharacters" "CHR ''('' \<noteq> backslash"
  by (simp_all add: syntaxCharacters_def backslash_def)

lemma scan_join:
  "scan (join ''|'' (map escapeRegExp ts) @ rest) = map_option ((@) (altTokens ts)) (scan rest)"
proof (induction ts rule: altTokens.induct)
  case 1
  then show ?case by (simp add: option.map_ident)
next
  case (2 t)
  then show ?case by (simp add: scan_escapeRegExp)
next
  case (3 t u us)
  have "scan (join ''|'' (map escapeRegExp (t # u # us)) @ rest)
      = scan (escapeRegExp t @ (CHR ''|'' # (join ''|'' (map escapeRegExp (u # us)) @ rest)))"
    by simp
  also have "\<dots> = map_option ((@) (map Lit t)) (scan (CHR ''|'' # (join ''|'' (map escapeRegExp (u # us)) @ rest)))"
    by (rule scan_escapeRegExp)
  also have "\<dots> = map_option ((@) (altTokens (t # u # us))) (scan rest)"
    using 3 bar_syntax by (cases "scan rest") simp_all
  finally show ?case .
qed

lemma alternatives_nonempty: "alternatives ts = Some (as, rest) \<Longrightarrow> as \<noteq> []"
  by (induction ts arbitrary: as rest rule: alternatives.induct)
     (auto split: option.splits list.splits prod.splits if_splits)

lemma alternatives_Lit:
  "alternatives (map Lit t @ ts) =
     (case alternatives ts of Some (a # as, rest) \<Rightarrow> Some ((t @ a) # as, rest) | _ \<Rightarrow> None)"
proof (induction t)
  case Nil
  show ?case using alternatives_nonempty[of ts]
    by (auto split: option.splits list.splits prod.splits)
next
  case (Cons c t)
  then show ?case by (auto split: option.splits list.splits prod.splits)
qed

lemma alternatives_altTokens:
  "alternatives (altTokens ts @ Op (CHR '')'') # rest) = Some (if ts = [] then [[]] else ts, rest)"
proof (induction ts rule: altTokens.induct)
  case 1
  then show ?case by simp
next
  case (2 t)
  then show ?case by (simp add: alternatives_Lit)
next
  case (3 t u us)
  then show ?case by (simp add: alternatives_Lit)
qed

lemma scan_patternSource:
  "scan (patternSource terms) = Some (WordB # Op (CHR ''('') # altTokens terms @ [Op (CHR '')''), WordB])"
proof -
  have tail: "scan [CHR '')'', backslash, CHR ''b''] = Some [Op (CHR '')''), WordB]"
    using bar_syntax by (simp add: escapeToken_def syntaxCharacters_def backslash_def)
  have "scan (join ''|'' (map escapeRegExp terms) @ [CHR '')'', backslash, CHR ''b''])
      = Some (altTokens terms @ [Op (CHR '')''), WordB])"
    by (simp only: scan_join tail option.map)
  then show ?thesis
    using bar_syntax by (simp add: patternSource_def escapeToken_def syntaxCharacters_def backslash_def)
qed

lemma RegExp_patternSource:
  "RegExp (patternSource terms) = Inr (if terms = [] then [[]] else terms)"
  using alternatives_altTokens[of terms "[WordB]"]
  by (simp add: RegExp_def scan_patternSource)

section \<open>The split loop keeps every character\<close>

lemma substring_append:
  "p \<le> q \<Longrightarrow> q \<le> e \<Longrightarrow> substring s p q @ substring s q e = substring s p e"
proof -
  assume pq: "p \<le> q" and qe: "q \<le> e"
  have "take (q - p) (drop p s) @ take (e - q) (drop (q - p) (drop p s)) = take ((q - p) + (e - q)) (drop p s)"
    by (simp add: take_add)
  moreover have "drop (q - p) (drop p s) = drop q s" using pq by simp
  moreover have "(q - p) + (e - q) = e - p" using pq qe by simp
  ultimately show ?thesis by (simp add: substring_def)
qed

lemma substring_drop: "p \<le> q \<Longrightarrow> substring s p q @ drop q s = drop p s"
proof -
  assume pq: "p \<le> q"
  have "take (q - p) (drop p s) @ drop (q - p) (drop p s) = drop p s" by (rule append_take_drop_id)
  moreover have "drop (q - p) (drop p s) = drop q s" using pq by simp
  ultimately show ?thesis by (simp add: substring_def)
qed

lemma substring_to_end: "substring s p (length s) = drop p s"
  by (simp add: substring_def)

lemma substring_snoc:
  "p \<le> q \<Longrightarrow> q < length s \<Longrightarrow> substring s p (q + 1) = substring s p q @ [s ! q]"
proof -
  assume pq: "p \<le> q" and q: "q < length s"
  have "substring s q (q + 1) = [s ! q]"
    using q by (simp add: substring_def take_Suc_conv_app_nth hd_drop_conv_nth take_Suc)
  then show ?thesis using substring_append[of p q "q + 1" s] pq by simp
qed

declare splitLoop.simps [simp del]

lemma splitLoop_end: "\<not> q < length s \<Longrightarrow> splitLoop exec s p q = [substring s p (length s)]"
  by (subst splitLoop.simps) simp

lemma splitLoop_None:
  "q < length s \<Longrightarrow> exec q = None \<Longrightarrow> splitLoop exec s p q = splitLoop exec s p (q + 1)"
  by (subst splitLoop.simps) simp

lemma splitLoop_skip:
  "q < length s \<Longrightarrow> exec q = Some (n, caps) \<Longrightarrow> min (q + n) (length s) = p \<Longrightarrow>
   splitLoop exec s p q = splitLoop exec s p (q + 1)"
  by (subst splitLoop.simps) simp

lemma splitLoop_match:
  "q < length s \<Longrightarrow> exec q = Some (n, caps) \<Longrightarrow> min (q + n) (length s) \<noteq> p \<Longrightarrow>
   splitLoop exec s p q =
     substring s p q # caps @ splitLoop exec s (min (q + n) (length s)) (min (q + n) (length s))"
  by (subst splitLoop.simps) (simp add: Let_def)

lemma splitLoop_concat:
  "captures_cover exec s \<Longrightarrow> p \<le> q \<Longrightarrow> q \<le> length s \<Longrightarrow>
   concat (splitLoop exec s p q) = drop p s"
proof (induction exec s p q rule: splitLoop.induct)
  case (1 exec s p q)
  note cov = "1.prems"(1)
  show ?case
  proof (cases "q < length s")
    case False
    with "1.prems" show ?thesis by (simp add: splitLoop_end substring_to_end)
  next
    case True
    show ?thesis
    proof (cases "exec q")
      case None
      with True "1.IH"(1)[OF True None cov] "1.prems" show ?thesis by (simp add: splitLoop_None)
    next
      case (Some r)
      obtain n caps where r: "r = (n, caps)" by (cases r)
      from Some r have ex: "exec q = Some (n, caps)" by simp
      from cov ex have le: "q + n \<le> length s" and cc: "concat caps = substring s q (q + n)"
        by (auto simp: captures_cover_def)
      then have m: "min (q + n) (length s) = q + n" by simp
      show ?thesis
      proof (cases "q + n = p")
        case same: True
        with m have "min (q + n) (length s) = p" by simp
        from splitLoop_skip[of q s exec n caps p, OF True ex this] "1.IH"(2)[OF True ex refl refl this cov] "1.prems" True
        show ?thesis by simp
      next
        case diff: False
        with m have ne: "min (q + n) (length s) \<noteq> p" by simp
        have "concat (splitLoop exec s (q + n) (q + n)) = drop (q + n) s"
          using "1.IH"(3)[OF True ex refl refl ne cov] le m by simp
        then have "concat (splitLoop exec s p q) = substring s p q @ substring s q (q + n) @ drop (q + n) s"
          using splitLoop_match[of q s exec n caps p, OF True ex ne] m cc by simp
        also have "\<dots> = substring s p q @ drop q s"
          by (simp add: substring_drop)
        also have "\<dots> = drop p s" using "1.prems" by (simp add: substring_drop)
        finally show ?thesis .
      qed
    qed
  qed
qed

lemma splitRegExp_concat: "captures_cover exec s \<Longrightarrow> concat (splitRegExp exec s) = s"
  using splitLoop_concat[of exec s 0 0] by (simp add: splitRegExp_def)

lemma regExpExec_Some:
  assumes "regExpExec alts s q = Some (n, caps)"
  shows "\<exists>a. find (\<lambda>a. matchesAt s q a \<and> isWordBoundary s (q + length a)) alts = Some a
           \<and> n = length a \<and> caps = [substring s q (q + n)] \<and> isWordBoundary s q"
  using assms by (auto simp: regExpExec_def split: if_splits option.splits)

lemma regExpExec_term:
  assumes "regExpExec alts s q = Some (n, caps)"
  shows "\<exists>a\<in>set alts. n = length a \<and> caps = [substring s q (q + n)]
           \<and> q + n \<le> length s
           \<and> map Canonicalize (substring s q (q + n)) = map Canonicalize a"
proof -
  from regExpExec_Some[OF assms] obtain a where
      f: "find (\<lambda>a. matchesAt s q a \<and> isWordBoundary s (q + length a)) alts = Some a"
      and n: "n = length a" and c: "caps = [substring s q (q + n)]" by blast
  from f have "a \<in> set alts" "matchesAt s q a" by (auto simp: find_Some_iff)
  with n c show ?thesis by (auto simp: matchesAt_def)
qed

lemma regExpExec_cover: "captures_cover (regExpExec alts s) s"
proof -
  have "q + n \<le> length s \<and> concat caps = substring s q (q + n)"
    if "regExpExec alts s q = Some (n, caps)" for q n caps
  proof -
    from regExpExec_Some[OF that] obtain a where
      f: "find (\<lambda>a. matchesAt s q a \<and> isWordBoundary s (q + length a)) alts = Some a"
      and n: "n = length a" and c: "caps = [substring s q (q + n)]" by blast
    from f have "matchesAt s q a" by (auto simp: find_Some_iff)
    then show ?thesis using n c by (simp add: matchesAt_def)
  qed
  then show ?thesis unfolding captures_cover_def by blast
qed

lemma span_text_renderPart: "span_text (renderPart terms part) = part"
  by (simp add: renderPart_def)

lemma highlightText_eq:
  "highlightText text terms =
     Inr (if terms = [] then [Plain text]
          else map (renderPart terms) (splitRegExp (regExpExec terms text) text))"
  by (simp add: highlightText_def RegExp_patternSource)

lemma highlightText_concat:
  "highlightText text terms = Inr spans \<Longrightarrow> concat (map span_text spans) = text"
proof -
  assume h: "highlightText text terms = Inr spans"
  show ?thesis
  proof (cases "terms = []")
    case True
    with h show ?thesis by (auto simp: highlightText_eq)
  next
    case False
    with h have "spans = map (renderPart terms) (splitRegExp (regExpExec terms text) text)"
      by (simp add: highlightText_eq)
    then have "map span_text spans = splitRegExp (regExpExec terms text) text"
      by (simp add: comp_def span_text_renderPart)
    then show ?thesis by (simp add: splitRegExp_concat regExpExec_cover)
  qed
qed

lemma substring_inside: "\<exists>u v. s = u @ substring s i j @ v"
proof -
  have "take i s @ (take (j - i) (drop i s) @ drop (j - i) (drop i s)) = s"
    by (simp only: append_take_drop_id)
  then have "s = take i s @ substring s i j @ drop (j - i) (drop i s)"
    by (simp only: substring_def)
  then show ?thesis by blast
qed

section \<open>The tokenizer refines its specification\<close>

lemma spec_words_whitespace:
  "\<forall>c\<in>set w. isWhiteSpace c \<Longrightarrow> w \<noteq> [] \<Longrightarrow>
   spec_words cur (w @ rest) = (if cur = [] then [] else [cur]) @ spec_words [] rest"
proof (induction w arbitrary: cur)
  case Nil
  then show ?case by simp
next
  case (Cons c w)
  show ?case
  proof (cases "w = []")
    case True
    with Cons.prems show ?thesis by simp
  next
    case False
    with Cons.prems Cons.IH[of "[]"] show ?thesis by simp
  qed
qed

lemma whiteSpaceExec_None:
  "q < length s \<Longrightarrow> whiteSpaceExec s q = None \<Longrightarrow> \<not> isWhiteSpace (s ! q)"
  by (auto simp: whiteSpaceExec_def Let_def hd_drop_conv_nth takeWhile_eq_Nil_iff
           split: if_splits)

lemma whiteSpaceExec_Some:
  assumes "whiteSpaceExec s q = Some (n, caps)"
  shows "caps = [] \<and> 0 < n \<and> q + n \<le> length s
         \<and> drop q s = takeWhile isWhiteSpace (drop q s) @ drop (q + n) s
         \<and> n = length (takeWhile isWhiteSpace (drop q s))"
proof -
  let ?w = "takeWhile isWhiteSpace (drop q s)"
  from assms have n: "n = length ?w" and pos: "0 < n" and c: "caps = []"
    by (auto simp: whiteSpaceExec_def Let_def split: if_splits)
  have "length ?w \<le> length (drop q s)" by (rule length_takeWhile_le)
  moreover from pos n have "drop q s \<noteq> []" by auto
  then have "q < length s" by simp
  ultimately have le: "q + n \<le> length s" using n by simp
  have "drop q s = ?w @ dropWhile isWhiteSpace (drop q s)" by simp
  moreover have "dropWhile isWhiteSpace (drop q s) = drop n (drop q s)"
    unfolding n by (rule dropWhile_eq_drop)
  ultimately have "drop q s = ?w @ drop (q + n) s" by (simp add: add.commute)
  with n pos c le show ?thesis by simp
qed

lemma splitLoop_whiteSpace:
  "p \<le> q \<Longrightarrow> q \<le> length s \<Longrightarrow> exec = whiteSpaceExec s \<Longrightarrow>
   filter (\<lambda>part. part \<noteq> []) (splitLoop exec s p q) = spec_words (substring s p q) (drop q s)"
proof (induction exec s p q rule: splitLoop.induct)
  case (1 exec s p q)
  note ex = "1.prems"(3)
  show ?case
  proof (cases "q < length s")
    case False
    with "1.prems" have "q = length s" by simp
    then show ?thesis by (simp add: splitLoop_end)
  next
    case True
    then have dq: "drop q s = s ! q # drop (q + 1) s" by (simp add: Cons_nth_drop_Suc)
    show ?thesis
    proof (cases "exec q")
      case None
      then have nw: "\<not> isWhiteSpace (s ! q)" using whiteSpaceExec_None[OF True] ex by simp
      have "filter (\<lambda>part. part \<noteq> []) (splitLoop exec s p (q + 1))
              = spec_words (substring s p (q + 1)) (drop (q + 1) s)"
        using "1.IH"(1)[OF True None _ _ ex] "1.prems" True by simp
      moreover have "substring s p (Suc q) = substring s p q @ [s ! q]"
        using substring_snoc[of p q s] "1.prems"(1) True by simp
      ultimately show ?thesis
        using splitLoop_None[of q s exec p, OF True None] dq nw
        by simp
    next
      case (Some r)
      obtain n caps where r: "r = (n, caps)" by (cases r)
      with Some have e: "exec q = Some (n, caps)" by simp
      have e': "whiteSpaceExec s q = Some (n, caps)" using e ex by simp
      from whiteSpaceExec_Some[OF e']
      have c: "caps = []" and pos: "0 < n" and le: "q + n \<le> length s"
        and d: "drop q s = takeWhile isWhiteSpace (drop q s) @ drop (q + n) s"
        and n: "n = length (takeWhile isWhiteSpace (drop q s))" by blast+
      have m: "min (q + n) (length s) = q + n" using le by simp
      have ne: "min (q + n) (length s) \<noteq> p" using m pos "1.prems"(1) by simp
      have IH: "filter (\<lambda>part. part \<noteq> []) (splitLoop exec s (q + n) (q + n))
              = spec_words [] (drop (q + n) s)"
        using "1.IH"(3)[OF True e refl refl ne _ _ ex] m le by (simp add: substring_def)
      have w: "\<forall>c\<in>set (takeWhile isWhiteSpace (drop q s)). isWhiteSpace c"
        by (auto dest: set_takeWhileD)
      have wn: "takeWhile isWhiteSpace (drop q s) \<noteq> []" using n pos by auto
      have "spec_words (substring s p q) (drop q s)
              = (if substring s p q = [] then [] else [substring s p q]) @ spec_words [] (drop (q + n) s)"
        using spec_words_whitespace[OF w wn, of "substring s p q" "drop (q + n) s"] d by simp
      then show ?thesis
        using splitLoop_match[of q s exec n caps p, OF True e ne] m c IH by simp
    qed
  qed
qed

lemma tokenize_spec: "tokenize raw = spec_tokenize raw"
proof (cases "raw = []")
  case True
  then show ?thesis
    by (simp add: tokenize_def spec_tokenize_def splitRegExp_def whiteSpaceExec_def)
next
  case False
  then show ?thesis
    using splitLoop_whiteSpace[of 0 0 raw "whiteSpaceExec raw"]
    by (simp add: tokenize_def spec_tokenize_def splitRegExp_def substring_def)
qed

lemma spec_words_all_whitespace: "\<forall>c\<in>set w. isWhiteSpace c \<Longrightarrow> spec_words [] w = []"
  by (induction w) simp_all

lemma spec_words_tokens:
  "t \<in> set (spec_words cur cs) \<Longrightarrow> \<forall>c\<in>set cur. \<not> isWhiteSpace c \<Longrightarrow>
   t \<noteq> [] \<and> (\<forall>c\<in>set t. \<not> isWhiteSpace c)"
  by (induction cur cs rule: spec_words.induct) (auto split: if_splits)

section \<open>Tagging and the parts of the split\<close>

lemma is_matched_renderPart:
  "is_matched (renderPart terms part) = (\<exists>t\<in>set terms. toLowerCase t = toLowerCase part)"
  by (simp add: renderPart_def list_ex_iff)

lemma renderPart_capture:
  assumes "a \<in> set terms" and "map Canonicalize c = map Canonicalize a"
  shows "renderPart terms c = Matched c"
proof -
  have "toLowerCase a = toLowerCase c"
    using Canonicalize_toLowerCase[OF assms(2)] by simp
  with assms(1) have "list_ex (\<lambda>t. toLowerCase t = toLowerCase c) terms"
    unfolding list_ex_iff by blast
  then show ?thesis by (simp add: renderPart_def)
qed

lemma length_toLowerCase: "length (toLowerCase s) = length s"
  by (simp add: toLowerCase_def)

lemma splitLoop_inside:
  "(\<forall>i n caps. exec i = Some (n, caps) \<longrightarrow> (\<forall>c\<in>set caps. \<exists>u v. s = u @ c @ v)) \<Longrightarrow>
   part \<in> set (splitLoop exec s p q) \<Longrightarrow> \<exists>u v. s = u @ part @ v"
proof (induction exec s p q rule: splitLoop.induct)
  case (1 exec s p q)
  note caps = "1.prems"(1) and part = "1.prems"(2)
  show ?case
  proof (cases "q < length s")
    case False
    with part have "part = substring s p (length s)" by (simp add: splitLoop_end)
    then show ?thesis using substring_inside by simp
  next
    case True
    show ?thesis
    proof (cases "exec q")
      case None
      with part True have "part \<in> set (splitLoop exec s p (q + 1))"
        by (simp add: splitLoop_None)
      then show ?thesis by (rule "1.IH"(1)[OF True None caps])
    next
      case (Some r)
      obtain n cs where r: "r = (n, cs)" by (cases r)
      with Some have e: "exec q = Some (n, cs)" by simp
      show ?thesis
      proof (cases "min (q + n) (length s) = p")
        case same: True
        with part have "part \<in> set (splitLoop exec s p (q + 1))"
          using splitLoop_skip[of q s exec n cs p, OF True e same] by simp
        then show ?thesis by (rule "1.IH"(2)[OF True e refl refl same caps])
      next
        case diff: False
        let ?e = "min (q + n) (length s)"
        from part splitLoop_match[of q s exec n cs p, OF True e diff]
        consider "part = substring s p q" | "part \<in> set cs"
          | "part \<in> set (splitLoop exec s ?e ?e)" by auto
        then show ?thesis
        proof cases
          case 1
          then show ?thesis using substring_inside by simp
        next
          case 2
          with caps e show ?thesis by blast
        next
          case 3
          then show ?thesis by (rule "1.IH"(3)[OF True e refl refl diff caps])
        qed
      qed
    qed
  qed
qed

lemma highlightText_inside:
  assumes "highlightText text terms = Inr spans" and "sp \<in> set spans"
  shows "\<exists>u v. text = u @ span_text sp @ v"
proof (cases "terms = []")
  case True
  with assms have "span_text sp = text" by (auto simp: highlightText_eq)
  then have "text = [] @ span_text sp @ []" by simp
  then show ?thesis by blast
next
  case False
  let ?exec = "regExpExec terms text"
  from assms False have "span_text sp \<in> set (splitRegExp ?exec text)"
    by (auto simp: highlightText_eq span_text_renderPart)
  then consider "span_text sp = text" | "span_text sp \<in> set (splitLoop ?exec text 0 0)"
    by (auto simp: splitRegExp_def split: if_splits)
  then show ?thesis
  proof cases
    case 1
    then have "text = [] @ span_text sp @ []" by simp
    then show ?thesis by blast
  next
    case 2
    have "\<forall>i n caps. ?exec i = Some (n, caps) \<longrightarrow> (\<forall>c\<in>set caps. \<exists>u v. text = u @ c @ v)"
      using regExpExec_Some substring_inside by (metis empty_iff empty_set set_ConsD)
    from splitLoop_inside[OF this 2] show ?thesis .
  qed
qed

section \<open>The matches that the split takes\<close>

declare takenMatches.simps [simp del]

lemma takenMatches_end: "\<not> q < length s \<Longrightarrow> takenMatches exec s p q = []"
  by (subst takenMatches.simps) simp

lemma takenMatches_None:
  "q < length s \<Longrightarrow> exec q = None \<Longrightarrow> takenMatches exec s p q = takenMatches exec s p (q + 1)"
  by (subst takenMatches.simps) simp

lemma takenMatches_skip:
  "q < length s \<Longrightarrow> exec q = Some (n, caps) \<Longrightarrow> min (q + n) (length s) = p \<Longrightarrow>
   takenMatches exec s p q = takenMatches exec s p (q + 1)"
  by (subst takenMatches.simps) simp

lemma takenMatches_match:
  "q < length s \<Longrightarrow> exec q = Some (n, caps) \<Longrightarrow> min (q + n) (length s) \<noteq> p \<Longrightarrow>
   takenMatches exec s p q =
     (p, q, min (q + n) (length s))
       # takenMatches exec s (min (q + n) (length s)) (min (q + n) (length s))"
  by (subst takenMatches.simps) (simp add: Let_def)

text \<open>The parts of the split are the pieces that the matches it takes cut out.\<close>

lemma splitLoop_partsOf:
  "(\<forall>i n caps. exec i = Some (n, caps) \<longrightarrow> caps = [substring s i (min (i + n) (length s))]) \<Longrightarrow>
   splitLoop exec s p q = map snd (partsOf s p (takenMatches exec s p q))"
proof (induction exec s p q rule: splitLoop.induct)
  case (1 exec s p q)
  note caps = "1.prems"
  show ?case
  proof (cases "q < length s")
    case False
    then show ?thesis by (simp add: splitLoop_end takenMatches_end)
  next
    case True
    show ?thesis
    proof (cases "exec q")
      case None
      with True "1.IH"(1)[OF True None caps] show ?thesis
        by (simp add: splitLoop_None takenMatches_None)
    next
      case (Some r)
      obtain n cs where r: "r = (n, cs)" by (cases r)
      with Some have e: "exec q = Some (n, cs)" by simp
      let ?e = "min (q + n) (length s)"
      from caps e have cs: "cs = [substring s q ?e]" by blast
      show ?thesis
      proof (cases "?e = p")
        case same: True
        from "1.IH"(2)[OF True e refl refl same caps]
        show ?thesis
          using splitLoop_skip[of q s exec n cs p, OF True e same]
                takenMatches_skip[of q s exec n cs p, OF True e same] by simp
      next
        case diff: False
        from "1.IH"(3)[OF True e refl refl diff caps]
        show ?thesis
          using splitLoop_match[of q s exec n cs p, OF True e diff]
                takenMatches_match[of q s exec n cs p, OF True e diff] cs by simp
      qed
    qed
  qed
qed

lemma regExpExec_single_capture:
  "\<forall>i n caps. regExpExec alts s i = Some (n, caps) \<longrightarrow>
     caps = [substring s i (min (i + n) (length s))]"
proof (intro allI impI)
  fix i n caps
  assume "regExpExec alts s i = Some (n, caps)"
  from regExpExec_term[OF this] have "caps = [substring s i (i + n)]" and "i + n \<le> length s"
    by blast+
  then show "caps = [substring s i (min (i + n) (length s))]" by simp
qed

lemma splitRegExp_partsOf:
  "splitRegExp (regExpExec alts s) s
     = map snd (partsOf s 0 (takenMatches (regExpExec alts s) s 0 0))"
proof (cases "s = []")
  case True
  have "regExpExec alts [] 0 = None" by (simp add: regExpExec_def isWordBoundary_def)
  with True show ?thesis
    by (simp add: splitRegExp_def takenMatches_end substring_def)
next
  case False
  then have "(length s = 0) = False" by simp
  then have "splitRegExp (regExpExec alts s) s = splitLoop (regExpExec alts s) s 0 0"
    by (simp only: splitRegExp_def if_False)
  with splitLoop_partsOf[OF regExpExec_single_capture, of alts s 0 0] show ?thesis by simp
qed

text \<open>What the loop has taken is a match, and every index it has passed gave none.\<close>

lemma passed_extend:
  assumes "\<forall>i. (if p = p0 then q0 + 1 else p) \<le> i \<and> i < q \<longrightarrow> P i"
    and "p = p0 \<longrightarrow> P q0"
  shows "\<forall>i. (if p = p0 then q0 else p) \<le> i \<and> i < (q::nat) \<longrightarrow> P i"
proof (intro allI impI)
  fix i
  assume b: "(if p = p0 then q0 else p) \<le> i \<and> i < q"
  show "P i"
  proof (cases "p = p0 \<and> i = q0")
    case True
    with assms(2) show ?thesis by simp
  next
    case False
    with b have "(if p = p0 then q0 + 1 else p) \<le> i \<and> i < q" by (auto split: if_splits)
    with assms(1) show ?thesis by blast
  qed
qed

lemma takenMatches_sound:
  "p0 \<le> q0 \<Longrightarrow> (p, q, e) \<in> set (takenMatches exec s p0 q0) \<Longrightarrow>
   p0 \<le> p \<and> p \<le> q \<and> q < length s \<and> p < e \<and> e \<le> length s
   \<and> (\<exists>n caps. exec q = Some (n, caps) \<and> e = min (q + n) (length s))
   \<and> (\<forall>i. (if p = p0 then q0 else p) \<le> i \<and> i < q \<longrightarrow>
          exec i = None \<or> (\<exists>n caps. exec i = Some (n, caps) \<and> min (i + n) (length s) = p))"
proof (induction exec s p0 q0 rule: takenMatches.induct)
  case (1 exec s p0 q0)
  note le = "1.prems"(1) and mem = "1.prems"(2)
  let ?P = "\<lambda>i. exec i = None \<or> (\<exists>n caps. exec i = Some (n, caps) \<and> min (i + n) (length s) = p)"
  show ?case
  proof (cases "q0 < length s")
    case False
    with mem show ?thesis by (simp add: takenMatches_end)
  next
    case True
    show ?thesis
    proof (cases "exec q0")
      case None
      from mem have m: "(p, q, e) \<in> set (takenMatches exec s p0 (q0 + 1))"
        using takenMatches_None[of q0 s exec p0, OF True None] by simp
      from le have le': "p0 \<le> q0 + 1" by simp
      note ih = "1.IH"(1)[OF True None le' m]
      from ih have a: "p0 \<le> p \<and> p \<le> q \<and> q < length s \<and> p < e \<and> e \<le> length s
          \<and> (\<exists>n caps. exec q = Some (n, caps) \<and> e = min (q + n) (length s))" by blast
      from ih have b: "\<forall>i. (if p = p0 then q0 + 1 else p) \<le> i \<and> i < q \<longrightarrow> ?P i" by blast
      from None have "p = p0 \<longrightarrow> ?P q0" by simp
      from passed_extend[of p p0 q0 q ?P, OF b this] a show ?thesis by blast
    next
      case (Some r)
      obtain n cs where r: "r = (n, cs)" by (cases r)
      with Some have ex: "exec q0 = Some (n, cs)" by simp
      let ?e = "min (q0 + n) (length s)"
      show ?thesis
      proof (cases "?e = p0")
        case same: True
        from mem have m: "(p, q, e) \<in> set (takenMatches exec s p0 (q0 + 1))"
          using takenMatches_skip[of q0 s exec n cs p0, OF True ex same] by simp
        from le have le': "p0 \<le> q0 + 1" by simp
        note ih = "1.IH"(2)[OF True ex refl refl same le' m]
        from ih have a: "p0 \<le> p \<and> p \<le> q \<and> q < length s \<and> p < e \<and> e \<le> length s
          \<and> (\<exists>n caps. exec q = Some (n, caps) \<and> e = min (q + n) (length s))" by blast
        from ih have b: "\<forall>i. (if p = p0 then q0 + 1 else p) \<le> i \<and> i < q \<longrightarrow> ?P i" by blast
        from ex same have "p = p0 \<longrightarrow> ?P q0" by blast
        from passed_extend[of p p0 q0 q ?P, OF b this] a show ?thesis by blast
      next
        case diff: False
        from le True have ge: "p0 \<le> ?e" by simp
        from ge diff[symmetric] have gt: "p0 < ?e" by (rule le_neq_trans)
        from mem consider (hd) "(p, q, e) = (p0, q0, ?e)"
          | (tl) "(p, q, e) \<in> set (takenMatches exec s ?e ?e)"
          using takenMatches_match[of q0 s exec n cs p0, OF True ex diff] by auto
        then show ?thesis
        proof cases
          case hd
          then have "p = p0" "q = q0" "e = ?e" by simp_all
          with le True gt ex show ?thesis by auto
        next
          case tl
          note ih = "1.IH"(3)[OF True ex refl refl diff order_refl tl]
          from ih gt have ne: "p \<noteq> p0" and ge': "p0 \<le> p" by auto
          from ih have a: "p \<le> q \<and> q < length s \<and> p < e \<and> e \<le> length s
            \<and> (\<exists>n caps. exec q = Some (n, caps) \<and> e = min (q + n) (length s))" by blast
          from ih have b: "\<forall>i. p \<le> i \<and> i < q \<longrightarrow> ?P i" by (auto split: if_splits)
          from ne ge' a b show ?thesis by simp
        qed
      qed
    qed
  qed
qed

lemma partsOf_True:
  "(True, part) \<in> set (partsOf s p ms) \<Longrightarrow> \<exists>r q e. (r, q, e) \<in> set ms \<and> part = substring s q e"
  by (induction s p ms rule: partsOf.induct) auto

lemma renderAt_taken:
  assumes "terms \<noteq> []"
    and "x \<in> set (partsOf text 0 (takenMatches (regExpExec terms text) text 0 0))"
  shows "renderPart terms (snd x) = renderAt terms x"
proof (cases x)
  case (Pair m part)
  show ?thesis
  proof (cases m)
    case False
    with Pair show ?thesis by simp
  next
    case True
    with Pair assms(2)
    have "(True, part) \<in> set (partsOf text 0 (takenMatches (regExpExec terms text) text 0 0))"
      by simp
    from partsOf_True[OF this] obtain r q e
      where mem: "(r, q, e) \<in> set (takenMatches (regExpExec terms text) text 0 0)"
        and part: "part = substring text q e"
      by blast
    from takenMatches_sound[OF order_refl mem] obtain n caps
      where ex: "regExpExec terms text q = Some (n, caps)" and e: "e = min (q + n) (length text)"
      by blast
    from regExpExec_term[OF ex] obtain a where "a \<in> set terms" and "q + n \<le> length text"
      and "map Canonicalize (substring text q (q + n)) = map Canonicalize a" by blast
    with e part have "renderPart terms part = Matched part"
      using renderPart_capture[of a terms part] by simp
    with Pair True show ?thesis by simp
  qed
qed

lemma highlightText_renderAt:
  assumes "terms \<noteq> []"
  shows "highlightText text terms =
           Inr (map (renderAt terms) (partsOf text 0 (takenMatches (regExpExec terms text) text 0 0)))"
proof -
  let ?ps = "partsOf text 0 (takenMatches (regExpExec terms text) text 0 0)"
  have "map (renderPart terms) (map snd ?ps) = map (renderAt terms) ?ps"
    using renderAt_taken[OF assms] by (simp add: comp_def)
  with assms show ?thesis by (simp add: highlightText_eq splitRegExp_partsOf)
qed

lemma regExpExec_passed:
  assumes "regExpExec alts s i = None
           \<or> (\<exists>n caps. regExpExec alts s i = Some (n, caps) \<and> min (i + n) (length s) = p)"
    and "p \<le> i"
  shows "regExpExec alts s i = None \<or> (i = p \<and> regExpExec alts s i = Some (0, [[]]))"
proof (cases "regExpExec alts s i")
  case None
  then show ?thesis by simp
next
  case (Some r)
  with assms(1) obtain n caps where ex: "regExpExec alts s i = Some (n, caps)"
    and m: "min (i + n) (length s) = p" by auto
  from regExpExec_term[OF ex] have c: "caps = [substring s i (i + n)]" and le: "i + n \<le> length s"
    by blast+
  from m le have "i + n = p" by simp
  with assms(2) have "n = 0" and "i = p" by simp_all
  with ex c show ?thesis by (simp add: substring_def)
qed

lemma spec_words_length:
  "t \<in> set (spec_words cur cs) \<Longrightarrow> length t \<le> length cur + length cs"
  by (induction cur cs rule: spec_words.induct) (auto split: if_splits)

lemma tokenize_length: "list_all (\<lambda>t. length t \<le> length raw) (tokenize raw)"
  unfolding list_all_iff tokenize_spec spec_tokenize_def
  using spec_words_length[of _ "[]" raw] by simp

lemma spec_words_no_whitespace:
  "\<forall>c\<in>set cs. \<not> isWhiteSpace c \<Longrightarrow> cur @ cs \<noteq> [] \<Longrightarrow> spec_words cur cs = [cur @ cs]"
  by (induction cs arbitrary: cur) simp_all

lemma tokenize_single:
  "\<forall>c\<in>set raw. \<not> isWhiteSpace c \<Longrightarrow> raw \<noteq> [] \<Longrightarrow> tokenize raw = [raw]"
  using spec_words_no_whitespace[of raw "[]"] by (simp add: tokenize_spec spec_tokenize_def)

section \<open>Claims about the highlighter\<close>

text \<open>
  C1 (metacharacter safety). Escaping turns every character of a term, the pattern
  metacharacters included, into a token that matches that character: the pattern built
  from the terms compiles to the alternatives that are the terms themselves. So highlightText
  splits the text with the matcher over the terms as literal strings, and whatever that
  matcher matches is, character for character up to case, one of the terms. The term
  \<open>a.b*c\<close> gives exactly one matched span in the text \<open>a.b*c\<close>, and none in \<open>aXbbc\<close>, which
  the same characters read as a pattern would match.
\<close>

theorem metacharacters_literal:
  "scan (escapeRegExp t) = Some (map Lit t)
   \<and> RegExp (patternSource terms) = Inr (if terms = [] then [[]] else terms)
   \<and> (terms \<noteq> [] \<longrightarrow>
        highlightText text terms =
          Inr (map (renderPart terms) (splitRegExp (regExpExec terms text) text)))
   \<and> (regExpExec terms text q = Some (n, caps) \<longrightarrow>
        (\<exists>t\<in>set terms. n = length t \<and> caps = [substring text q (q + n)] \<and>
           map Canonicalize (substring text q (q + n)) = map Canonicalize t))
   \<and> highlightText ''a.b*c'' [''a.b*c''] = Inr [Plain [], Matched ''a.b*c'', Plain []]
   \<and> highlightText ''aXbbc'' [''a.b*c''] = Inr [Plain ''aXbbc'']"
proof -
  have a: "scan (escapeRegExp t) = Some (map Lit t)" by (rule scan_escapeRegExp_term)
  have b: "RegExp (patternSource terms) = Inr (if terms = [] then [[]] else terms)"
    by (rule RegExp_patternSource)
  have c: "terms \<noteq> [] \<longrightarrow>
        highlightText text terms =
          Inr (map (renderPart terms) (splitRegExp (regExpExec terms text) text))"
    by (simp add: highlightText_eq)
  have d: "regExpExec terms text q = Some (n, caps) \<longrightarrow>
        (\<exists>t\<in>set terms. n = length t \<and> caps = [substring text q (q + n)] \<and>
           map Canonicalize (substring text q (q + n)) = map Canonicalize t)"
    using regExpExec_term[of terms "text" q n caps] by blast
  have e: "highlightText ''a.b*c'' [''a.b*c''] = Inr [Plain [], Matched ''a.b*c'', Plain []]"
    by code_simp
  have f: "highlightText ''aXbbc'' [''a.b*c''] = Inr [Plain ''aXbbc'']"
    by code_simp
  from a b c d e f show ?thesis by blast
qed

theorem metacharacters_literal_witness:
  "regExpExec [''a.b*c''] ''a.b*c'' 0 = Some (5, [''a.b*c''])
   \<and> map Canonicalize (substring ''a.b*c'' 0 (0 + 5)) = map Canonicalize ''a.b*c''
   \<and> highlightText ''a.b*c'' [''a.b*c''] =
         Inr (map (renderPart [''a.b*c'']) (splitRegExp (regExpExec [''a.b*c''] ''a.b*c'') ''a.b*c''))"
proof -
  have h: "regExpExec [''a.b*c''] ''a.b*c'' 0 = Some (5, [''a.b*c''])" by code_simp
  from metacharacters_literal[of _ "[''a.b*c'']" "''a.b*c''" 0 5 "[''a.b*c'']"] h
  have "map Canonicalize (substring ''a.b*c'' 0 (0 + 5)) = map Canonicalize ''a.b*c''"
    and "highlightText ''a.b*c'' [''a.b*c''] =
         Inr (map (renderPart [''a.b*c'']) (splitRegExp (regExpExec [''a.b*c''] ''a.b*c'') ''a.b*c''))"
    by auto
  with h show ?thesis by blast
qed

text \<open>Without the escaping the same characters are pattern syntax.\<close>

lemma scan_unescaped:
  "scan ''a.b*c'' = Some [Lit (CHR ''a''), Op (CHR ''.''), Lit (CHR ''b''), Op (CHR ''*''), Lit (CHR ''c'')]"
  by (simp add: syntaxCharacters_def backslash_def)

text \<open>
  C2 (segmentation losslessness). For every text and every list of terms, highlightText
  returns a sequence of spans, and the texts of these spans, concatenated in order,
  are the text: no character is added, lost, repeated or moved.
\<close>

theorem highlightText_lossless:
  "\<exists>spans. highlightText text terms = Inr spans \<and> concat (map span_text spans) = text"
proof -
  obtain spans where h: "highlightText text terms = Inr spans"
    by (simp add: highlightText_eq)
  then have "concat (map span_text spans) = text" by (rule highlightText_concat)
  with h show ?thesis by blast
qed

text \<open>
  C3 (tagging), as the code has it. A part is rendered as a matched span exactly when its
  text equals one of the terms after \<open>toLowerCase\<close> on both; where the part came from plays
  no role. On the texts and terms of the modelled range (code units up to U+00FF), where
  the case folding of the pattern and \<open>toLowerCase\<close> agree, this marks every match that the
  split takes: the output is the sequence of the pieces that the taken matches cut out of
  the text, each match as a matched span and each other piece as the comparison renders
  it. So \<open>Cat\<close> is matched in \<open>The Cat sat\<close>; in \<open>category cat\<close> and in \<open>tomcat cat\<close> only the
  second \<open>cat\<close> is.
\<close>

theorem highlightText_tagging:
  "(highlightText text terms = Inr spans \<longrightarrow>
      (\<forall>sp\<in>set spans.
         is_matched sp = (\<exists>t\<in>set terms. toLowerCase t = toLowerCase (span_text sp))))
   \<and> (terms \<noteq> [] \<longrightarrow>
        highlightText text terms =
          Inr (map (renderAt terms)
                 (partsOf text 0 (takenMatches (regExpExec terms text) text 0 0))))
   \<and> highlightText ''The Cat sat'' [''cat''] = Inr [Plain ''The '', Matched ''Cat'', Plain '' sat'']
   \<and> highlightText ''category cat'' [''cat''] = Inr [Plain ''category '', Matched ''cat'', Plain []]
   \<and> highlightText ''tomcat cat'' [''cat''] = Inr [Plain ''tomcat '', Matched ''cat'', Plain []]"
proof -
  have a: "highlightText text terms = Inr spans \<longrightarrow>
      (\<forall>sp\<in>set spans.
         is_matched sp = (\<exists>t\<in>set terms. toLowerCase t = toLowerCase (span_text sp)))"
  proof (cases "terms = []")
    case True
    then show ?thesis by (auto simp: highlightText_eq)
  next
    case False
    have "is_matched sp = (\<exists>t\<in>set terms. toLowerCase t = toLowerCase (span_text sp))"
      if "sp \<in> set (map (renderPart terms) parts)" for sp parts
    proof -
      from that obtain part where "sp = renderPart terms part" by auto
      then show ?thesis by (simp add: is_matched_renderPart span_text_renderPart)
    qed
    then have "\<forall>sp\<in>set (map (renderPart terms) (splitRegExp (regExpExec terms text) text)).
        is_matched sp = (\<exists>t\<in>set terms. toLowerCase t = toLowerCase (span_text sp))"
      by blast
    with False show ?thesis by (auto simp only: highlightText_eq if_False sum.inject)
  qed
  have b: "terms \<noteq> [] \<longrightarrow>
        highlightText text terms =
          Inr (map (renderAt terms)
                 (partsOf text 0 (takenMatches (regExpExec terms text) text 0 0)))"
    using highlightText_renderAt by blast
  have c: "highlightText ''The Cat sat'' [''cat''] = Inr [Plain ''The '', Matched ''Cat'', Plain '' sat'']"
    by code_simp
  have d: "highlightText ''category cat'' [''cat''] = Inr [Plain ''category '', Matched ''cat'', Plain []]"
    by code_simp
  have e: "highlightText ''tomcat cat'' [''cat''] = Inr [Plain ''tomcat '', Matched ''cat'', Plain []]"
    by code_simp
  from a b c d e show ?thesis by blast
qed

theorem highlightText_tagging_witness:
  "highlightText ''The Cat sat'' [''cat''] = Inr [Plain ''The '', Matched ''Cat'', Plain '' sat'']
   \<and> is_matched (Matched ''Cat'')
       = (\<exists>t\<in>set [''cat'']. toLowerCase t = toLowerCase (span_text (Matched ''Cat'')))
   \<and> takenMatches (regExpExec [''cat''] ''The Cat sat'') ''The Cat sat'' 0 0 = [(0, 4, 7)]
   \<and> map (renderAt [''cat''])
        (partsOf ''The Cat sat'' 0 (takenMatches (regExpExec [''cat''] ''The Cat sat'') ''The Cat sat'' 0 0))
       = [Plain ''The '', Matched ''Cat'', Plain '' sat'']"
proof -
  have h1: "highlightText ''The Cat sat'' [''cat''] = Inr [Plain ''The '', Matched ''Cat'', Plain '' sat'']"
    by code_simp
  have h2: "takenMatches (regExpExec [''cat''] ''The Cat sat'') ''The Cat sat'' 0 0 = [(0, 4, 7)]"
    by code_simp
  have h3: "[''cat''] \<noteq> []" by simp
  from highlightText_tagging[of "''The Cat sat''" "[''cat'']" "[Plain ''The '', Matched ''Cat'', Plain '' sat'']"] h1 h3
  have "is_matched (Matched ''Cat'')
       = (\<exists>t\<in>set [''cat'']. toLowerCase t = toLowerCase (span_text (Matched ''Cat'')))"
    and "map (renderAt [''cat''])
        (partsOf ''The Cat sat'' 0 (takenMatches (regExpExec [''cat''] ''The Cat sat'') ''The Cat sat'' 0 0))
       = [Plain ''The '', Matched ''Cat'', Plain '' sat'']"
    by simp_all
  with h1 h2 show ?thesis by blast
qed

text \<open>
  C3 as stated fails: for the text \<open>+\<close> and the term \<open>+\<close> the matcher finds no match (there
  is no word boundary beside \<open>+\<close>), the split returns the text as its only part, and that
  part is tagged matched because it equals the term.
\<close>

theorem tagged_unmatched_counterexample:
  "highlightText ''+'' [''+''] = Inr [Matched ''+'']
   \<and> splitRegExp (regExpExec [''+''] ''+'') ''+'' = [''+'']
   \<and> regExpExec [''+''] ''+'' 0 = None"
  by code_simp

text \<open>
  C4 (zero-width spans), as the code has it. Every span is a contiguous piece of the
  text, and when no term is empty every span tagged matched is not empty. Plain spans
  can be empty.
\<close>

theorem matched_spans_nonempty:
  assumes "highlightText text terms = Inr spans"
    and "list_all (\<lambda>t. t \<noteq> []) terms"
    and "sp \<in> set spans"
  shows "(\<exists>u v. text = u @ span_text sp @ v) \<and> (is_matched sp \<longrightarrow> span_text sp \<noteq> [])"
proof -
  have "span_text sp \<noteq> []" if m: "is_matched sp"
  proof -
    from assms(1,3) m have "terms \<noteq> []" by (auto simp: highlightText_eq split: if_splits)
    with assms(1,3) obtain part where "sp = renderPart terms part"
      by (auto simp: highlightText_eq)
    with m obtain t where "t \<in> set terms" and "toLowerCase t = toLowerCase (span_text sp)"
      using is_matched_renderPart[of terms part] span_text_renderPart[of terms part] by auto
    moreover from this assms(2) have "t \<noteq> []" by (simp add: list_all_iff)
    ultimately show ?thesis using length_toLowerCase[of t] length_toLowerCase[of "span_text sp"]
      by auto
  qed
  with highlightText_inside[OF assms(1,3)] show ?thesis by blast
qed

theorem matched_spans_nonempty_witness:
  "highlightText ''cat'' [''cat''] = Inr [Plain [], Matched ''cat'', Plain []]
   \<and> list_all (\<lambda>t. t \<noteq> []) [''cat'']
   \<and> (\<exists>u v. ''cat'' = u @ span_text (Matched ''cat'') @ v)
   \<and> span_text (Matched ''cat'') \<noteq> []"
proof -
  have h: "highlightText ''cat'' [''cat''] = Inr [Plain [], Matched ''cat'', Plain []]"
    by code_simp
  have t: "list_all (\<lambda>t. t \<noteq> []) [''cat'']" by simp
  from matched_spans_nonempty[OF h t, of "Matched ''cat''"]
  have "(\<exists>u v. ''cat'' = u @ span_text (Matched ''cat'') @ v)" and "span_text (Matched ''cat'') \<noteq> []"
    by simp_all
  with h t show ?thesis by blast
qed

text \<open>
  C4 as stated fails: for the text \<open>cat\<close> and the term \<open>cat\<close> the split puts an empty part
  before the match at the start of the text and one after the match at its end, and both
  are rendered as spans.
\<close>

theorem zero_width_span_counterexample:
  "highlightText ''cat'' [''cat''] = Inr [Plain [], Matched ''cat'', Plain []]"
  by code_simp

text \<open>
  C5 (tie-break), as the code has it. The texts of the spans are the pieces that the taken
  matches cut out of the text, in order, and they make up the text, so no two spans
  overlap. A match that the split takes, from the index \<open>p\<close> at which the scan had resumed
  (the start of the text or the end of the previous match), starts at the earliest index
  \<open>q\<close> from \<open>p\<close> at which the pattern matches: every index before it gave no match, or at \<open>p\<close>
  itself an empty one. Among the terms that match at \<open>q\<close> between word boundaries it is the
  one that comes first in the list of terms. Which spans are tagged matched is decided by
  the comparison of C3 and not by the matches: in \<open>+a\<close> with the terms \<open>+\<close> and \<open>a\<close> the only
  match taken is \<open>a\<close>, and the piece \<open>+\<close> before it is tagged matched as well.
\<close>

theorem first_listed_term_wins:
  assumes "terms \<noteq> []"
    and "(p, q, e) \<in> set (takenMatches (regExpExec terms text) text 0 0)"
  shows "(\<exists>spans. highlightText text terms = Inr spans
            \<and> map span_text spans
                = map snd (partsOf text 0 (takenMatches (regExpExec terms text) text 0 0)))
         \<and> concat (map snd (partsOf text 0 (takenMatches (regExpExec terms text) text 0 0))) = text
         \<and> p \<le> q \<and> q < length text \<and> e \<le> length text
         \<and> list_all (\<lambda>i. regExpExec terms text i = None
                          \<or> (i = p \<and> regExpExec terms text i = Some (0, [[]]))) [p..<q]
         \<and> isWordBoundary text q
         \<and> (\<exists>a. find (\<lambda>a. matchesAt text q a \<and> isWordBoundary text (q + length a)) terms = Some a
                \<and> e = q + length a)
         \<and> takenMatches (regExpExec [''+'', ''a''] ''+a'') ''+a'' 0 0 = [(0, 1, 2)]
         \<and> highlightText ''+a'' [''+'', ''a''] = Inr [Matched ''+'', Matched ''a'', Plain []]"
proof -
  let ?exec = "regExpExec terms text"
  let ?ms = "takenMatches ?exec text 0 0"
  let ?spans = "map (renderPart terms) (splitRegExp ?exec text)"
  have h: "highlightText text terms = Inr ?spans"
    using assms(1) by (simp add: highlightText_eq)
  have texts: "map span_text ?spans = map snd (partsOf text 0 ?ms)"
    by (simp add: comp_def span_text_renderPart splitRegExp_partsOf)
  from h texts have c1: "\<exists>spans. highlightText text terms = Inr spans
            \<and> map span_text spans = map snd (partsOf text 0 ?ms)" by blast
  have c2: "concat (map snd (partsOf text 0 ?ms)) = text"
    using highlightText_concat[OF h] texts by simp
  note snd = takenMatches_sound[OF order_refl assms(2)]
  from snd have c3: "p \<le> q \<and> q < length text \<and> e \<le> length text" by blast
  from snd obtain n caps where ex: "?exec q = Some (n, caps)" and e: "e = min (q + n) (length text)"
    by blast
  from snd have passed: "\<forall>i. p \<le> i \<and> i < q \<longrightarrow>
      ?exec i = None \<or> (\<exists>n caps. ?exec i = Some (n, caps) \<and> min (i + n) (length text) = p)"
    by (auto split: if_splits)
  have c4: "list_all (\<lambda>i. ?exec i = None \<or> (i = p \<and> ?exec i = Some (0, [[]]))) [p..<q]"
    unfolding list_all_iff
  proof
    fix i assume "i \<in> set [p..<q]"
    then have r: "p \<le> i \<and> i < q" by simp
    with passed have "?exec i = None
        \<or> (\<exists>n caps. ?exec i = Some (n, caps) \<and> min (i + n) (length text) = p)" by blast
    from regExpExec_passed[OF this] r
    show "?exec i = None \<or> (i = p \<and> ?exec i = Some (0, [[]]))" by blast
  qed
  from regExpExec_Some[OF ex] obtain a where
    f: "find (\<lambda>a. matchesAt text q a \<and> isWordBoundary text (q + length a)) terms = Some a"
    and n: "n = length a" and wb: "isWordBoundary text q" by blast
  from f have "matchesAt text q a" by (auto simp: find_Some_iff)
  then have "q + length a \<le> length text" by (simp add: matchesAt_def)
  with e n have "e = q + length a" by simp
  with f have c6: "\<exists>a. find (\<lambda>a. matchesAt text q a \<and> isWordBoundary text (q + length a)) terms = Some a
                \<and> e = q + length a" by blast
  have c7: "takenMatches (regExpExec [''+'', ''a''] ''+a'') ''+a'' 0 0 = [(0, 1, 2)]"
    by code_simp
  have c8: "highlightText ''+a'' [''+'', ''a''] = Inr [Matched ''+'', Matched ''a'', Plain []]"
    by code_simp
  from c1 c2 c3 c4 wb c6 c7 c8 show ?thesis by blast
qed

theorem first_listed_term_wins_witness:
  "[''foo'', ''foo-bar''] \<noteq> []
   \<and> takenMatches (regExpExec [''foo'', ''foo-bar''] ''a foo-bar'') ''a foo-bar'' 0 0 = [(0, 2, 5)]
   \<and> highlightText ''a foo-bar'' [''foo'', ''foo-bar'']
       = Inr [Plain ''a '', Matched ''foo'', Plain ''-bar'']
   \<and> list_all (\<lambda>i. regExpExec [''foo'', ''foo-bar''] ''a foo-bar'' i = None
                    \<or> (i = 0 \<and> regExpExec [''foo'', ''foo-bar''] ''a foo-bar'' i = Some (0, [[]])))
        [0..<2]
   \<and> isWordBoundary ''a foo-bar'' 2
   \<and> (\<exists>a. find (\<lambda>a. matchesAt ''a foo-bar'' 2 a \<and> isWordBoundary ''a foo-bar'' (2 + length a))
              [''foo'', ''foo-bar''] = Some a \<and> (5::nat) = 2 + length a)"
proof -
  have h1: "[''foo'', ''foo-bar''] \<noteq> []" by simp
  have h2: "takenMatches (regExpExec [''foo'', ''foo-bar''] ''a foo-bar'') ''a foo-bar'' 0 0 = [(0, 2, 5)]"
    by code_simp
  then have h3: "(0, 2, 5) \<in> set (takenMatches (regExpExec [''foo'', ''foo-bar''] ''a foo-bar'') ''a foo-bar'' 0 0)"
    by simp
  have h4: "highlightText ''a foo-bar'' [''foo'', ''foo-bar'']
       = Inr [Plain ''a '', Matched ''foo'', Plain ''-bar'']" by code_simp
  from first_listed_term_wins[OF h1 h3] h1 h2 h4 show ?thesis by blast
qed

text \<open>
  C5 as stated fails: in \<open>foo-bar\<close> with the terms \<open>foo\<close> and \<open>foo-bar\<close>, in this order, both
  terms match at index 0 between word boundaries, and the shorter one, listed first, is
  the matched span.
\<close>

theorem longer_candidate_counterexample:
  "highlightText ''foo-bar'' [''foo'', ''foo-bar''] = Inr [Plain [], Matched ''foo'', Plain ''-bar'']
   \<and> isWordBoundary ''foo-bar'' 0
   \<and> matchesAt ''foo-bar'' 0 ''foo-bar''
   \<and> isWordBoundary ''foo-bar'' (0 + length ''foo-bar'')"
  by code_simp

text \<open>
  C8 (totality), as the code has it. The pattern that highlightText builds is always
  well formed. On an engine that accepts it, highlightText returns the spans; on an engine
  that refuses it for its size, highlightText throws, having no guard. With no terms it
  returns the whole text as one plain span on any engine. The tokenizer has no failing
  operation, its loop terminates (the termination is proved with its definition), and none
  of its terms is longer than the query.
\<close>

theorem highlightText_total:
  "(terms \<noteq> [] \<longrightarrow> accepts terms \<longrightarrow>
      (\<exists>spans. highlightText_on accepts text terms = Inr spans
                \<and> highlightText text terms = Inr spans))
   \<and> (terms \<noteq> [] \<longrightarrow> \<not> accepts terms \<longrightarrow> highlightText_on accepts text terms = Inl SyntaxError)
   \<and> highlightText_on accepts text [] = Inr [Plain text]
   \<and> list_all (\<lambda>t. length t \<le> length raw) (tokenize raw)"
proof -
  have compiled: "RegExp (patternSource terms) = Inr terms" if "terms \<noteq> []"
    using that by (simp add: RegExp_patternSource)
  have a: "terms \<noteq> [] \<longrightarrow> accepts terms \<longrightarrow>
      (\<exists>spans. highlightText_on accepts text terms = Inr spans
                \<and> highlightText text terms = Inr spans)"
  proof (intro impI)
    assume t: "terms \<noteq> []" and acc: "accepts terms"
    from compiled[OF t] t acc
    have "highlightText_on accepts text terms
            = Inr (map (renderPart terms) (splitRegExp (regExpExec terms text) text))"
      by (simp add: highlightText_on_def)
    moreover from compiled[OF t] t
    have "highlightText text terms
            = Inr (map (renderPart terms) (splitRegExp (regExpExec terms text) text))"
      by (simp add: highlightText_def)
    ultimately show "\<exists>spans. highlightText_on accepts text terms = Inr spans
                \<and> highlightText text terms = Inr spans" by blast
  qed
  have b: "terms \<noteq> [] \<longrightarrow> \<not> accepts terms \<longrightarrow> highlightText_on accepts text terms = Inl SyntaxError"
  proof (intro impI)
    assume t: "terms \<noteq> []" and acc: "\<not> accepts terms"
    from compiled[OF t] t acc show "highlightText_on accepts text terms = Inl SyntaxError"
      by (simp add: highlightText_on_def)
  qed
  have c: "highlightText_on accepts text [] = Inr [Plain text]"
    by (simp add: highlightText_on_def)
  have d: "list_all (\<lambda>t. length t \<le> length raw) (tokenize raw)" by (rule tokenize_length)
  from a b c d show ?thesis by blast
qed

theorem highlightText_total_witness:
  "[''cat''] \<noteq> [] \<and> engineAccepts_V8 [''cat'']
   \<and> highlightText_on engineAccepts_V8 ''The Cat sat'' [''cat'']
       = Inr [Plain ''The '', Matched ''Cat'', Plain '' sat'']"
proof -
  have h1: "[''cat''] \<noteq> []" by simp
  have h2: "engineAccepts_V8 [''cat'']" by (simp add: engineAccepts_V8_def)
  have h3: "highlightText ''The Cat sat'' [''cat''] = Inr [Plain ''The '', Matched ''Cat'', Plain '' sat'']"
    by code_simp
  from highlightText_total[of "[''cat'']" engineAccepts_V8 "''The Cat sat''"] h1 h2 h3
  have "highlightText_on engineAccepts_V8 ''The Cat sat'' [''cat'']
       = Inr [Plain ''The '', Matched ''Cat'', Plain '' sat'']" by auto
  with h1 h2 show ?thesis by blast
qed

text \<open>
  C8 as stated fails on V8: a query of 32768 letters \<open>a\<close> is one term, the engine refuses
  the pattern built from it, and highlightText throws.
\<close>

theorem pattern_too_large_counterexample:
  "tokenize (replicate 32768 (CHR ''a'')) = [replicate 32768 (CHR ''a'')]
   \<and> highlightText_on engineAccepts_V8 ''a'' (tokenize (replicate 32768 (CHR ''a''))) = Inl SyntaxError"
proof -
  have ne: "replicate 32768 (CHR ''a'') \<noteq> []" by simp
  have nw: "\<forall>c\<in>set (replicate 32768 (CHR ''a'')). \<not> isWhiteSpace c"
    by (simp add: isWhiteSpace_def code_def)
  have t: "tokenize (replicate 32768 (CHR ''a'')) = [replicate 32768 (CHR ''a'')]"
    using tokenize_single[OF nw ne] .
  have "\<not> engineAccepts_V8 [replicate 32768 (CHR ''a'')]"
    by (simp add: engineAccepts_V8_def)
  then have "highlightText_on engineAccepts_V8 ''a'' [replicate 32768 (CHR ''a'')] = Inl SyntaxError"
    by (simp add: highlightText_on_def RegExp_patternSource)
  with t show ?thesis by simp
qed

text \<open>The escaping is what makes the pattern well formed: the same template around the
  unescaped terms \<open>a(\<close> and \<open>b\<close> is rejected.\<close>

lemma unescaped_pattern_rejected:
  "RegExp ([backslash, CHR ''b'', CHR ''(''] @ join ''|'' [''a('', ''b''] @ [CHR '')'', backslash, CHR ''b''])
     = Inl SyntaxError"
  by (simp add: RegExp_def syntaxCharacters_def backslash_def escapeToken_def)

section \<open>Claims about the tokenizer\<close>

text \<open>
  C7 (tokenization). The terms of a query are the maximal runs of characters that are not
  white space, in order, as the specification words it; no term is empty and none holds
  a white space character. The query \<open>"  foo   bar "\<close> gives \<open>foo\<close> and \<open>bar\<close>; the empty
  query and a query of white space only give no term.
\<close>

theorem tokenize_whitespace_runs:
  "tokenize raw = spec_tokenize raw
   \<and> list_all (\<lambda>t. t \<noteq> [] \<and> list_all (\<lambda>c. \<not> isWhiteSpace c) t) (tokenize raw)
   \<and> tokenize ''  foo   bar '' = [''foo'', ''bar'']
   \<and> tokenize [] = []
   \<and> (list_all isWhiteSpace raw \<longrightarrow> tokenize raw = [])"
proof -
  have a: "tokenize raw = spec_tokenize raw" by (rule tokenize_spec)
  have b: "list_all (\<lambda>t. t \<noteq> [] \<and> list_all (\<lambda>c. \<not> isWhiteSpace c) t) (tokenize raw)"
    unfolding a spec_tokenize_def list_all_iff using spec_words_tokens[of _ "[]" raw] by simp
  have c: "tokenize ''  foo   bar '' = [''foo'', ''bar'']"
    unfolding tokenize_spec spec_tokenize_def by (simp add: isWhiteSpace_def code_def)
  have d: "tokenize [] = []" by (simp add: tokenize_spec spec_tokenize_def)
  have e: "list_all isWhiteSpace raw \<longrightarrow> tokenize raw = []"
    by (simp add: tokenize_spec spec_tokenize_def spec_words_all_whitespace list_all_iff)
  from a b c d e show ?thesis by blast
qed

theorem tokenize_whitespace_runs_witness:
  "list_all isWhiteSpace ''   '' \<and> tokenize ''   '' = []"
proof -
  have h: "list_all isWhiteSpace ''   ''" by (simp add: isWhiteSpace_def code_def)
  from tokenize_whitespace_runs[of "''   ''"] h have "tokenize ''   '' = []" by blast
  with h show ?thesis by blast
qed

section \<open>Claims about the search session\<close>

lemmas session_eval =
  start_def initial_def handleSearch_submit_def handleSearch_resume_def trim_def
  isWhiteSpace_def code_def docA_def docB_def

text \<open>
  C6 (stale responses), as the code has it. The component keeps no generation. The
  response to any pending request is handled when it arrives, whichever submission it
  answers, on the state it then finds: a response without a backend error that carries a
  result list replaces the results shown by that list (an empty list also sets the
  message for no results, any other list leaves the error as it is); a backend error
  clears them and is stored as the error; a failed request, or a response without a result
  list, leaves them as they are and sets the message of the \<open>catch\<close> block; loading is
  cleared in every case. So after \<open>A\<close> and then \<open>B\<close> are
  submitted, the session ends showing the results of \<open>B\<close> when the successful response to
  \<open>B\<close> arrives last, and those of \<open>A\<close> when the successful response to \<open>A\<close> arrives last; when
  the last response is a failure, the results of the earlier response stay.
\<close>

theorem response_applied_on_arrival:
  assumes "i < length (inflight s)"
  shows "results (ui (step cp s (Deliver i resp)))
           = (case resp of
                Failure \<Rightarrow> results (ui s)
              | Json err res \<Rightarrow>
                  (if err \<noteq> None \<and> err \<noteq> Some [] then []
                   else (case res of None \<Rightarrow> results (ui s) | Some rs \<Rightarrow> rs)))
         \<and> error (ui (step cp s (Deliver i resp)))
           = (case resp of
                Failure \<Rightarrow> Some (catchMessage cp)
              | Json err res \<Rightarrow>
                  (if err \<noteq> None \<and> err \<noteq> Some [] then err
                   else (case res of
                           None \<Rightarrow> Some (catchMessage cp)
                         | Some rs \<Rightarrow>
                             (if rs = [] then Some ''No matching documents found.''
                              else error (ui s)))))
         \<and> loading (ui (step cp s (Deliver i resp))) = False
         \<and> inflight (step cp s (Deliver i resp)) = take i (inflight s) @ drop (Suc i) (inflight s)
         \<and> results (ui (run cp start
               [SetQuery ''A'', Submit, SetQuery ''B'', Submit,
                Deliver 0 (Json None (Some [docA])), Deliver 0 (Json None (Some [docB]))])) = [docB]
         \<and> results (ui (run cp start
               [SetQuery ''A'', Submit, SetQuery ''B'', Submit,
                Deliver 1 (Json None (Some [docB])), Deliver 0 (Json None (Some [docA]))])) = [docA]
         \<and> results (ui (run cp start
               [SetQuery ''A'', Submit, SetQuery ''B'', Submit,
                Deliver 1 (Json None (Some [docB])), Deliver 0 Failure])) = [docB]
         \<and> error (ui (run cp start
               [SetQuery ''A'', Submit, SetQuery ''B'', Submit,
                Deliver 1 (Json None (Some [docB])), Deliver 0 Failure])) = Some (catchMessage cp)"
proof -
  have a: "results (ui (step cp s (Deliver i resp)))
           = (case resp of
                Failure \<Rightarrow> results (ui s)
              | Json err res \<Rightarrow>
                  (if err \<noteq> None \<and> err \<noteq> Some [] then []
                   else (case res of None \<Rightarrow> results (ui s) | Some rs \<Rightarrow> rs)))"
    using assms by (auto simp: handleSearch_resume_def split: response.splits option.splits)
  have a': "error (ui (step cp s (Deliver i resp)))
           = (case resp of
                Failure \<Rightarrow> Some (catchMessage cp)
              | Json err res \<Rightarrow>
                  (if err \<noteq> None \<and> err \<noteq> Some [] then err
                   else (case res of
                           None \<Rightarrow> Some (catchMessage cp)
                         | Some rs \<Rightarrow>
                             (if rs = [] then Some ''No matching documents found.''
                              else error (ui s)))))"
    using assms by (auto simp: handleSearch_resume_def split: response.splits option.splits)
  have b: "loading (ui (step cp s (Deliver i resp))) = False"
    using assms by (simp add: handleSearch_resume_def)
  have c: "inflight (step cp s (Deliver i resp)) = take i (inflight s) @ drop (Suc i) (inflight s)"
    using assms by simp
  have d: "results (ui (run cp start
               [SetQuery ''A'', Submit, SetQuery ''B'', Submit,
                Deliver 0 (Json None (Some [docA])), Deliver 0 (Json None (Some [docB]))])) = [docB]"
    by (simp add: session_eval)
  have e: "results (ui (run cp start
               [SetQuery ''A'', Submit, SetQuery ''B'', Submit,
                Deliver 1 (Json None (Some [docB])), Deliver 0 (Json None (Some [docA]))])) = [docA]"
    by (simp add: session_eval)
  have f: "results (ui (run cp start
               [SetQuery ''A'', Submit, SetQuery ''B'', Submit,
                Deliver 1 (Json None (Some [docB])), Deliver 0 Failure])) = [docB]"
    by (simp add: session_eval)
  have g: "error (ui (run cp start
               [SetQuery ''A'', Submit, SetQuery ''B'', Submit,
                Deliver 1 (Json None (Some [docB])), Deliver 0 Failure])) = Some (catchMessage cp)"
    by (simp add: session_eval)
  from a a' b c d e f g show ?thesis by blast
qed

theorem response_applied_on_arrival_witness:
  "(0::nat) < length (inflight \<lparr>ui = initial\<lparr>query := ''B'', results := [docB]\<rparr>, inflight = [''A'']\<rparr>)
   \<and> results (ui (step App_tsx \<lparr>ui = initial\<lparr>query := ''B'', results := [docB]\<rparr>, inflight = [''A'']\<rparr>
                  (Deliver 0 (Json None (Some [docA]))))) = [docA]
   \<and> results (ui (step App_tsx \<lparr>ui = initial\<lparr>query := ''B'', results := [docB]\<rparr>, inflight = [''A'']\<rparr>
                  (Deliver 0 Failure))) = [docB]"
proof -
  let ?s = "\<lparr>ui = initial\<lparr>query := ''B'', results := [docB]\<rparr>, inflight = [''A'']\<rparr>"
  have h: "(0::nat) < length (inflight ?s)" by simp
  from response_applied_on_arrival[OF h, of App_tsx "Json None (Some [docA])"]
  have a: "results (ui (step App_tsx ?s (Deliver 0 (Json None (Some [docA]))))) = [docA]" by simp
  from response_applied_on_arrival[OF h, of App_tsx Failure]
  have b: "results (ui (step App_tsx ?s (Deliver 0 Failure))) = [docB]"
    by (simp add: initial_def)
  from h a b show ?thesis by blast
qed

text \<open>
  C6 as stated fails: \<open>A\<close> is submitted, then \<open>B\<close> (with the Enter key, while \<open>A\<close> is
  pending); the response to \<open>B\<close> arrives first, then the response to \<open>A\<close>. The session
  ends showing the results of \<open>A\<close>.
\<close>

theorem stale_response_counterexample:
  "inflight (run App_tsx start [SetQuery ''A'', Submit, SetQuery ''B'', Submit]) = [''A'', ''B'']
   \<and> results (ui (run App_tsx start
         [SetQuery ''A'', Submit, SetQuery ''B'', Submit,
          Deliver 1 (Json None (Some [docB])), Deliver 0 (Json None (Some [docA]))])) = [docA]
   \<and> [docA] \<noteq> [docB]"
  by (simp add: session_eval)

text \<open>
  C9 (empty query), as the code has it. When the trimmed query is empty, handleSearch sets
  the error message \<open>Please enter a query.\<close>, clears the results, leaves the rest of the
  state as it is and calls no \<open>fetch\<close>. The message differs from the two other messages
  that the component itself writes (no results, failure of the request); an error that
  the backend declares is stored with the backend's own text, which can be this same text.
\<close>

theorem empty_query_local:
  assumes "trim (query st) = []"
  shows "handleSearch_submit st = (st\<lparr>error := Some ''Please enter a query.'', results := []\<rparr>, None)
         \<and> ''Please enter a query.'' \<noteq> ''No matching documents found.''
         \<and> ''Please enter a query.'' \<noteq> catchMessage cp
         \<and> error (handleSearch_resume cp st' (Json (Some ''Please enter a query.'') res))
              = Some ''Please enter a query.''"
  using assms by (cases cp) (simp_all add: handleSearch_submit_def handleSearch_resume_def)

theorem empty_query_local_witness:
  "trim (query (initial\<lparr>query := ''  ''\<rparr>)) = []
   \<and> handleSearch_submit (initial\<lparr>query := ''  ''\<rparr>)
       = (initial\<lparr>query := ''  '', error := Some ''Please enter a query.'', results := []\<rparr>, None)"
proof -
  have h: "trim (query (initial\<lparr>query := ''  ''\<rparr>)) = []"
    by (simp add: trim_def isWhiteSpace_def code_def)
  from empty_query_local[OF h] h show ?thesis by simp
qed

text \<open>
  C9 as stated fails in its last part: the state holds only the text of the message. The
  session that submits an empty query without contacting the backend, and the session in
  which the backend answers a query with the error \<open>Please enter a query.\<close>, end in the
  same state.
\<close>

theorem empty_query_indistinct_counterexample:
  "inflight (run App_tsx start [SetQuery '' '', Submit]) = []
   \<and> inflight (run App_tsx start [SetQuery ''x'', Submit]) = [''x'']
   \<and> run App_tsx start [SetQuery '' '', Submit]
       = run App_tsx start [SetQuery ''x'', Submit, SetQuery '' '',
           Deliver 0 (Json (Some ''Please enter a query.'') None)]"
  by (simp add: session_eval)

text \<open>
  C10 (error implies no results), as the code has it. After the submission step of
  handleSearch an error message implies an empty result list; a submission that sends a
  request leaves no error and no results; and when the response is handled on the state
  that its own submission left, an error message again implies an empty result list.
\<close>

theorem error_implies_no_results:
  assumes "handleSearch_submit st = (st1, req)"
  shows "(error st1 \<noteq> None \<longrightarrow> results st1 = [])
         \<and> (req \<noteq> None \<longrightarrow>
              error st1 = None \<and> results st1 = [] \<and>
              (error (handleSearch_resume cp st1 resp) \<noteq> None \<longrightarrow>
                 results (handleSearch_resume cp st1 resp) = []))"
  using assms
  by (auto simp: handleSearch_submit_def handleSearch_resume_def
           split: if_splits response.splits option.splits)

theorem error_implies_no_results_witness:
  "handleSearch_submit (initial\<lparr>query := ''A''\<rparr>)
     = (initial\<lparr>query := ''A'', loading := True\<rparr>, Some ''A'')
   \<and> error (handleSearch_resume App_tsx (initial\<lparr>query := ''A'', loading := True\<rparr>) Failure)
       = Some ''Could not connect to backend.''
   \<and> results (handleSearch_resume App_tsx (initial\<lparr>query := ''A'', loading := True\<rparr>) Failure) = []"
proof -
  have h: "handleSearch_submit (initial\<lparr>query := ''A''\<rparr>)
     = (initial\<lparr>query := ''A'', loading := True\<rparr>, Some ''A'')"
    by (simp add: session_eval)
  have e: "error (handleSearch_resume App_tsx (initial\<lparr>query := ''A'', loading := True\<rparr>) Failure)
       = Some ''Could not connect to backend.''"
    by (simp add: session_eval)
  from error_implies_no_results[OF h, of App_tsx Failure] e
  have "results (handleSearch_resume App_tsx (initial\<lparr>query := ''A'', loading := True\<rparr>) Failure) = []"
    by simp
  with h e show ?thesis by blast
qed

text \<open>
  C10 as stated fails when calls overlap: \<open>A\<close> is submitted; while it is pending the query
  is cleared and submitted, which sets the error message; then the response to \<open>A\<close> arrives
  and its results are stored beside that message.
\<close>

theorem error_with_results_counterexample:
  "error (ui (run App_tsx start
        [SetQuery ''A'', Submit, SetQuery [], Submit, Deliver 0 (Json None (Some [docA]))]))
     = Some ''Please enter a query.''
   \<and> results (ui (run App_tsx start
        [SetQuery ''A'', Submit, SetQuery [], Submit, Deliver 0 (Json None (Some [docA]))]))
     = [docA]"
  by (simp add: session_eval)

end
